theory Spec2Isabelle
  imports Main "HOL-Library.Word"
begin

section \<open>Messages exchanged by agents (package agentpb)\<close>

text \<open>
  Modelled from the spec: the message types of the package \<^verbatim>\<open>agentpb\<close> are declared
  outside the given sources. The records hold the fields that \<^verbatim>\<open>agent.go\<close> uses and
  that the data model of the spec lists; the enumerations hold the values of the spec, with
  the names of the source where it names one (\<^verbatim>\<open>NodeStatus_Unknown\<close>,
  \<^verbatim>\<open>MemberStatus_Alive\<close>). A Go pointer that may be \<^verbatim>\<open>nil\<close> is an
  \<open>option\<close>.
\<close>

datatype Probe_Type = Probe_Unknown | Probe_Running | Probe_Failed | Probe_Terminated

datatype NodeStatus_Type = NodeStatus_Unknown | NodeStatus_Healthy | NodeStatus_Degraded

datatype SystemStatus_Type = SystemStatus_Unknown | SystemStatus_Healthy | SystemStatus_Degraded

datatype MemberStatus_Type =
  MemberStatus_None | MemberStatus_Alive | MemberStatus_Leaving | MemberStatus_Left
  | MemberStatus_Failed

type_synonym Timestamp = nat

record Probe =
  probe_Checker :: string
  probe_Status :: Probe_Type
  probe_Detail :: string
  probe_Error :: string
  probe_Timestamp :: Timestamp

record MemberStatus =
  ms_Name :: string
  ms_Status :: MemberStatus_Type
  ms_Tags :: "string \<rightharpoonup> string"
  ms_Addr :: string

record NodeStatus =
  ns_Name :: string
  ns_Status :: NodeStatus_Type
  ns_MemberStatus :: "MemberStatus option"
  ns_Probes :: "Probe list"

record SystemStatus =
  ss_Status :: SystemStatus_Type
  ss_Timestamp :: Timestamp
  ss_Nodes :: "NodeStatus option list"

section \<open>Members of the serf cluster\<close>

text \<open>
  \<^verbatim>\<open>serf.Member\<close>: \<open>m_Addr\<close> is the text of the IP address
  (\<^verbatim>\<open>member.Addr.String()\<close>), \<open>m_Port\<close> the 16-bit port, \<open>m_Status\<close> the
  status string of the membership layer.
\<close>

record Member =
  m_Name :: string
  m_Addr :: string
  m_Port :: "16 word"
  m_Tags :: "string \<rightharpoonup> string"
  m_Status :: string

text \<open>
  Modelled from the spec: the constants \<^verbatim>\<open>MemberAlive\<close>, \<^verbatim>\<open>MemberLeaving\<close>,
  \<^verbatim>\<open>MemberLeft\<close> and \<^verbatim>\<open>MemberFailed\<close> are declared outside the given sources;
  the spec lists the member states Alive, Leaving, Left and Failed, and the strings are the
  lower-case names the membership layer reports.
\<close>

definition MemberAlive :: string where "MemberAlive = ''alive''"
definition MemberLeaving :: string where "MemberLeaving = ''leaving''"
definition MemberLeft :: string where "MemberLeft = ''left''"
definition MemberFailed :: string where "MemberFailed = ''failed''"

definition toMemberStatus :: "string \<Rightarrow> MemberStatus_Type" where
  "toMemberStatus status =
     (if status = MemberAlive then MemberStatus_Alive
      else if status = MemberLeaving then MemberStatus_Leaving
      else if status = MemberLeft then MemberStatus_Left
      else if status = MemberFailed then MemberStatus_Failed
      else MemberStatus_None)"

text \<open>The decimal text of a number, as \<^verbatim>\<open>%d\<close> prints it.\<close>

function show_nat :: "nat \<Rightarrow> string" where
  "show_nat n =
     (if n < 10 then [''0123456789'' ! n]
      else show_nat (n div 10) @ [''0123456789'' ! (n mod 10)])"
  by pat_completeness auto
termination
  by (relation "measure id") auto

declare show_nat.simps [simp del]

definition statusFromMember :: "Member \<Rightarrow> MemberStatus" where
  "statusFromMember member =
     \<lparr> ms_Name = m_Name member,
       ms_Status = toMemberStatus (m_Status member),
       ms_Tags = m_Tags member,
       ms_Addr = m_Addr member @ '':'' @ show_nat (unat (m_Port member)) \<rparr>"

definition unknownNodeStatus :: "Member \<Rightarrow> NodeStatus" where
  "unknownNodeStatus member =
     \<lparr> ns_Name = m_Name member,
       ns_Status = NodeStatus_Unknown,
       ns_MemberStatus = Some (statusFromMember member),
       ns_Probes = [] \<rparr>"

text \<open>
  \<^verbatim>\<open>&pb.MemberStatus{Name: name}\<close> leaves the other fields at their zero values:
  the first enumeration value, no tags, the empty address.
\<close>

definition emptyNodeStatus :: "string \<Rightarrow> NodeStatus" where
  "emptyNodeStatus name =
     \<lparr> ns_Name = name,
       ns_Status = NodeStatus_Unknown,
       ns_MemberStatus =
         Some \<lparr> ms_Name = name, ms_Status = MemberStatus_None, ms_Tags = Map.empty,
                ms_Addr = [] \<rparr>,
       ns_Probes = [] \<rparr>"

section \<open>Checkers and the probes accumulator (package health)\<close>

text \<open>
  The package \<^verbatim>\<open>health\<close> (the types \<^verbatim>\<open>Probes\<close>, \<^verbatim>\<open>Checker\<close> and
  \<^verbatim>\<open>Checkers\<close>) and the method \<^verbatim>\<open>Check\<close> of \<^verbatim>\<open>compositeChecker\<close> are
  outside the given sources; \<^verbatim>\<open>agent.go\<close> calls \<^verbatim>\<open>c.Name()\<close>,
  \<^verbatim>\<open>c.Check(&reporter)\<close>, \<^verbatim>\<open>reporter.Status()\<close> and
  \<^verbatim>\<open>reporter.GetProbes()\<close>.
\<close>

type_synonym Probes = "Probe list"

text \<open>
  Modelled from the spec: \<^verbatim>\<open>Probes.Add\<close> is missing. The accumulator keeps the
  probes in the order of insertion.
\<close>

definition Add :: "Probes \<Rightarrow> Probe \<Rightarrow> Probes" where
  "Add reporter p = reporter @ [p]"

text \<open>
  Modelled from the spec: \<^verbatim>\<open>Probes.GetProbes\<close> is missing. The snapshot is the
  ordered sequence of the probes added.
\<close>

definition GetProbes :: "Probes \<Rightarrow> Probe list" where
  "GetProbes reporter = reporter"

text \<open>
  Modelled from the spec: \<^verbatim>\<open>Probes.Status\<close> is missing. The rollup: if any probe has
  a status other than Running, Degraded; if no probe has been added, Unknown; otherwise
  Healthy.
\<close>

definition Probes_Status :: "Probes \<Rightarrow> NodeStatus_Type" where
  "Probes_Status reporter =
     (if list_ex (\<lambda>p. probe_Status p \<noteq> Probe_Running) reporter then NodeStatus_Degraded
      else if reporter = [] then NodeStatus_Unknown
      else NodeStatus_Healthy)"

text \<open>
  Modelled from the spec: the interface \<^verbatim>\<open>health.Checker\<close> and the methods of
  \<^verbatim>\<open>compositeChecker\<close> are missing. A checker has a name and a synchronous check
  that reports probes to the accumulator it is handed; a composite checker wraps an ordered
  sequence of sub-checkers and delegates the check to each in order. A plain checker is
  given with the probes it reports on the run under consideration.
\<close>

datatype Checker = Checker string "Probe list" | compositeChecker string "Checker list"

fun Checker_Name :: "Checker \<Rightarrow> string" where
  "Checker_Name (Checker n ps) = n"
| "Checker_Name (compositeChecker n cs) = n"

fun Check :: "Checker \<Rightarrow> Probes \<Rightarrow> Probes" where
  "Check (Checker n ps) reporter = foldl Add reporter ps"
| "Check (compositeChecker n cs) reporter = fold Check cs reporter"

section \<open>The agent\<close>

datatype error = Error string | Wrap error string

text \<open>
  \<^verbatim>\<open>context.Context\<close> as the agent observes it: not yet done, cancelled, or past
  its deadline (\<^verbatim>\<open>ctx.Err()\<close> is \<^verbatim>\<open>nil\<close>, \<^verbatim>\<open>Canceled\<close>,
  \<^verbatim>\<open>DeadlineExceeded\<close>).
\<close>

datatype Context = ctx_Live | ctx_Canceled | ctx_DeadlineExceeded

text \<open>A channel of \<^verbatim>\<open>struct{}\<close> that is only ever closed.\<close>

datatype chan = chan_nil | chan_open | chan_closed

text \<open>
  The serf client is an interface value; of it the model keeps what its methods answer
  when the agent calls them. An RPC client to a peer is what its \<^verbatim>\<open>LocalStatus\<close>
  answers for a context.
\<close>

record serfClient =
  serf_Members :: "error + Member list"
  serf_Close :: "error option"

type_synonym client = "Context \<Rightarrow> error + NodeStatus option"

text \<open>
  The fields of \<^verbatim>\<open>agent\<close>. Of the RPC server the state keeps the addresses it
  listens on and whether it was stopped. \<open>cache\<close> is the status the cache holds
  (nothing before the first write). \<open>done_ch\<close> is the channel \<^verbatim>\<open>done\<close>.
  \<open>mu\<close> is true while the mutex is held. \<open>logged\<close> collects the lines written
  by \<^verbatim>\<open>log.Infof\<close> in \<^verbatim>\<open>runChecks\<close>, one for each checker that is run.
\<close>

record agent =
  Checkers :: "Checker list"
  serfClient :: serfClient
  name :: string
  rpc_listeners :: "string list"
  rpc_stopped :: bool
  cache :: "SystemStatus option"
  dialRPC :: "Member \<Rightarrow> error + client"
  done_ch :: chan
  mu :: bool
  localStatus :: "NodeStatus option"
  logged :: "string list"

text \<open>
  Modelled from the spec: \<^verbatim>\<open>AddChecker\<close> of the embedded \<^verbatim>\<open>health.Checkers\<close>
  is missing. The registry is an ordered sequence of checkers, and adding appends.
\<close>

definition AddChecker :: "Checker \<Rightarrow> agent \<Rightarrow> agent" where
  "AddChecker checker r = r\<lparr>Checkers := Checkers r @ [checker]\<rparr>"

subsection \<open>Construction, start and shutdown\<close>

record Config =
  cfg_Name :: string
  cfg_RPCAddrs :: "string list"
  cfg_SerfRPCAddr :: string
  cfg_Peers :: "string list"
  cfg_Tags :: "(string \<rightharpoonup> string) option"
  cfg_Cache :: "SystemStatus option"

text \<open>
  What the outside answers during \<^verbatim>\<open>New\<close>: the connection to serf, the update of
  the tags, \<^verbatim>\<open>net.Listen\<close> for each address, and the default dialer.
\<close>

record new_env =
  ne_ClientFromConfig :: "error + serfClient"
  ne_UpdateTags :: "error option"
  ne_Listen :: "string \<Rightarrow> error option"
  ne_defaultDialRPC :: "Member \<Rightarrow> error + client"

fun listen_all :: "(string \<Rightarrow> error option) \<Rightarrow> string list \<Rightarrow> string list \<Rightarrow> error + string list" where
  "listen_all listen [] listeners = Inr listeners"
| "listen_all listen (addr # addrs) listeners =
     (case listen addr of
        Some err \<Rightarrow> Inl (Wrap err [])
      | None \<Rightarrow> listen_all listen addrs (listeners @ [addr]))"

definition New :: "Config \<Rightarrow> new_env \<Rightarrow> error + agent" where
  "New config env =
     (case ne_ClientFromConfig env of
        Inl err \<Rightarrow> Inl (Wrap err ''failed to connect to serf'')
      | Inr client \<Rightarrow>
         (case ne_UpdateTags env of
            Some err \<Rightarrow> Inl (Wrap err ''failed to update serf agent tags'')
          | None \<Rightarrow>
             (case listen_all (ne_Listen env) (cfg_RPCAddrs config) [] of
                Inl err \<Rightarrow> Inl err
              | Inr listeners \<Rightarrow>
                 Inr \<lparr> Checkers = [],
                       serfClient = client,
                       name = cfg_Name config,
                       rpc_listeners = listeners,
                       rpc_stopped = False,
                       cache = cfg_Cache config,
                       dialRPC = ne_defaultDialRPC env,
                       done_ch = chan_nil,
                       mu = False,
                       localStatus = Some (emptyNodeStatus (cfg_Name config)),
                       logged = [] \<rparr>)))"

text \<open>\<^verbatim>\<open>Start\<close> makes the channel; the loop it spawns is the subject of a later section.\<close>

definition Start :: "agent \<Rightarrow> error option \<times> agent" where
  "Start r = (None, r\<lparr>done_ch := chan_open\<rparr>)"

text \<open>
  \<^verbatim>\<open>close(r.done)\<close> panics on a nil or an already closed channel: then \<open>Close\<close>
  does not return, which is \<open>None\<close>.
\<close>

definition Close :: "agent \<Rightarrow> (error option \<times> agent) option" where
  "Close r =
     (let r1 = r\<lparr>rpc_stopped := True\<rparr> in
      if done_ch r1 \<noteq> chan_open then None
      else
        let r2 = r1\<lparr>done_ch := chan_closed\<rparr>;
            err = serf_Close (serfClient r2)
        in (case err of
              Some e \<Rightarrow> Some (Some (Wrap e []), r2)
            | None \<Rightarrow> Some (None, r2)))"

subsection \<open>The slot of the latest local status\<close>

text \<open>
  \<^verbatim>\<open>r.mu.Lock()\<close> blocks while the mutex is held; a call that blocks for ever does not
  return, which is \<open>None\<close>.
\<close>

definition Lock :: "agent \<Rightarrow> agent option" where
  "Lock r = (if mu r then None else Some (r\<lparr>mu := True\<rparr>))"

definition Unlock :: "agent \<Rightarrow> agent" where
  "Unlock r = r\<lparr>mu := False\<rparr>"

definition recentLocalStatus :: "agent \<Rightarrow> (NodeStatus option \<times> agent) option" where
  "recentLocalStatus r =
     (case Lock r of
        None \<Rightarrow> None
      | Some r1 \<Rightarrow> Some (localStatus r1, Unlock r1))"

definition LocalStatus :: "agent \<Rightarrow> (NodeStatus option \<times> agent) option" where
  "LocalStatus r = recentLocalStatus r"

subsection \<open>Running the checks\<close>

fun run_checkers :: "Checker list \<Rightarrow> Probes \<times> string list \<Rightarrow> Probes \<times> string list" where
  "run_checkers [] st = st"
| "run_checkers (c # cs) (reporter, lg) =
     run_checkers cs (Check c reporter, lg @ [''running checker '' @ Checker_Name c])"

definition runChecks :: "Context \<Rightarrow> agent \<Rightarrow> NodeStatus \<times> agent" where
  "runChecks ctx r =
     (let (reporter, lg) = run_checkers (Checkers r) ([], logged r);
          status = \<lparr> ns_Name = name r,
                     ns_Status = Probes_Status reporter,
                     ns_MemberStatus = None,
                     ns_Probes = GetProbes reporter \<rparr>
      in (status, r\<lparr>logged := lg\<rparr>))"

text \<open>
  In \<^verbatim>\<open>collectLocalStatus\<close> the named result \<^verbatim>\<open>err\<close> is still \<^verbatim>\<open>nil\<close> when it
  is tested, since \<^verbatim>\<open>runChecks\<close> returns no error.
\<close>

definition collectLocalStatus ::
    "Context \<Rightarrow> Member \<Rightarrow> agent \<Rightarrow> ((error + NodeStatus) \<times> agent) option" where
  "collectLocalStatus ctx local r =
     (let (status, r1) = runChecks ctx r;
          err = (None :: error option)
      in case err of
           Some e \<Rightarrow> Some (Inl (Wrap e []), r1)
         | None \<Rightarrow>
            (let status = status\<lparr>ns_MemberStatus := Some (statusFromMember local)\<rparr>
             in case Lock r1 of
                  None \<Rightarrow> None
                | Some r2 \<Rightarrow> Some (Inr status, Unlock (r2\<lparr>localStatus := Some status\<rparr>))))"

text \<open>
  The two phases of \<^verbatim>\<open>collectLocalStatus\<close>. The first runs the checks and attaches the
  member status; it does not hold the mutex. The second stores the status in the slot under
  the mutex and returns it. Between the two, other goroutines can run.
\<close>

definition collectLocalStatus_checks ::
    "Context \<Rightarrow> Member \<Rightarrow> agent \<Rightarrow> (error + NodeStatus) \<times> agent" where
  "collectLocalStatus_checks ctx local r =
     (let (status, r1) = runChecks ctx r;
          err = (None :: error option)
      in case err of
           Some e \<Rightarrow> (Inl (Wrap e []), r1)
         | None \<Rightarrow> (Inr (status\<lparr>ns_MemberStatus := Some (statusFromMember local)\<rparr>), r1))"

definition collectLocalStatus_store ::
    "NodeStatus \<Rightarrow> agent \<Rightarrow> ((error + NodeStatus) \<times> agent) option" where
  "collectLocalStatus_store status r1 =
     (case Lock r1 of
        None \<Rightarrow> None
      | Some r2 \<Rightarrow> Some (Inr status, Unlock (r2\<lparr>localStatus := Some status\<rparr>)))"

subsection \<open>Collecting the status of the cluster\<close>

record statusResponse =
  sr_NodeStatus :: "NodeStatus option"
  sr_member :: Member
  sr_err :: "error option"

text \<open>
  The \<^verbatim>\<open>select\<close> that ends a member task. The channel \<^verbatim>\<open>respc\<close> has room for one
  response of every member, so the send can always proceed; the receive from
  \<^verbatim>\<open>r.done\<close> can proceed only when that channel is closed. When both can proceed Go
  chooses one of them at random: \<open>pick_done\<close> says that it chooses the receive.
\<close>

definition send_or_done ::
    "bool \<Rightarrow> agent \<Rightarrow> statusResponse list \<Rightarrow> statusResponse \<Rightarrow> statusResponse list" where
  "send_or_done pick_done r respc resp =
     (if done_ch r = chan_closed \<and> pick_done then respc else respc @ [resp])"

definition getLocalStatus ::
    "Context \<Rightarrow> Member \<Rightarrow> bool \<Rightarrow> statusResponse list \<times> agent
       \<Rightarrow> (statusResponse list \<times> agent) option" where
  "getLocalStatus ctx local pick_done st =
     (case st of (respc, r) \<Rightarrow>
       (case collectLocalStatus ctx local r of
          None \<Rightarrow> None
        | Some (res, r1) \<Rightarrow>
           (let resp = \<lparr> sr_NodeStatus = None, sr_member = local, sr_err = None \<rparr>;
                resp = (case res of
                          Inl err \<Rightarrow> resp\<lparr>sr_err := Some (Wrap err [])\<rparr>
                        | Inr status \<Rightarrow> resp\<lparr>sr_NodeStatus := Some status\<rparr>)
            in Some (send_or_done pick_done r1 respc resp, r1))))"

definition getStatusFrom ::
    "Context \<Rightarrow> Member \<Rightarrow> bool \<Rightarrow> statusResponse list \<times> agent
       \<Rightarrow> (statusResponse list \<times> agent) option" where
  "getStatusFrom ctx member pick_done st =
     (case st of (respc, r) \<Rightarrow>
       (let resp = \<lparr> sr_NodeStatus = None, sr_member = member, sr_err = None \<rparr>;
            resp = (case dialRPC r member of
                      Inl err \<Rightarrow> resp\<lparr>sr_err := Some (Wrap err [])\<rparr>
                    | Inr client \<Rightarrow>
                       (case client ctx of
                          Inl err \<Rightarrow> resp\<lparr>sr_err := Some (Wrap err [])\<rparr>
                        | Inr status \<Rightarrow> resp\<lparr>sr_NodeStatus := status\<rparr>))
        in Some (send_or_done pick_done r respc resp, r)))"

text \<open>The task that \<^verbatim>\<open>collectStatus\<close> starts for a member.\<close>

definition member_task ::
    "Context \<Rightarrow> Member \<Rightarrow> bool \<Rightarrow> statusResponse list \<times> agent
       \<Rightarrow> (statusResponse list \<times> agent) option" where
  "member_task ctx member pick_done st =
     (if name (snd st) = m_Name member then getLocalStatus ctx member pick_done st
      else getStatusFrom ctx member pick_done st)"

text \<open>
  The member tasks run concurrently, and \<^verbatim>\<open>wg.Wait()\<close> returns when all of them are
  finished. A schedule lists, for each task in the order in which the tasks finish, which of
  the tasks still running it is (a position among them, taken modulo their number) and what
  its \<^verbatim>\<open>select\<close> chooses when both cases can proceed. Every schedule finishes every
  task once; a schedule that is too short lets the remaining tasks finish in the order of
  the member list, each sending its response.
\<close>

type_synonym schedule = "(nat \<times> bool) list"

definition remove_nth :: "nat \<Rightarrow> 'a list \<Rightarrow> 'a list" where
  "remove_nth j xs = take j xs @ drop (Suc j) xs"

definition task_index :: "schedule \<Rightarrow> nat \<Rightarrow> nat" where
  "task_index sched n = (case sched of [] \<Rightarrow> 0 | (k, pick_done) # _ \<Rightarrow> k mod n)"

definition task_pick :: "schedule \<Rightarrow> bool" where
  "task_pick sched = (case sched of [] \<Rightarrow> False | (k, pick_done) # _ \<Rightarrow> pick_done)"

function run_tasks ::
    "Context \<Rightarrow> Member list \<Rightarrow> schedule \<Rightarrow> statusResponse list \<times> agent
       \<Rightarrow> (statusResponse list \<times> agent) option" where
  "run_tasks ctx running sched st =
     (if running = [] then Some st
      else
        let j = task_index sched (length running)
        in case member_task ctx (running ! j) (task_pick sched) st of
             None \<Rightarrow> None
           | Some st' \<Rightarrow> run_tasks ctx (remove_nth j running) (tl sched) st')"
  by pat_completeness auto
termination
proof -
  have less: "k mod n + (n - Suc (k mod n)) < n" if "0 < n" for k n :: nat
    using mod_less_divisor [OF that, of k] by arith
  show ?thesis
    by (relation "measure (\<lambda>(ctx, running, sched, st). length running)")
       (auto simp: remove_nth_def task_index_def less split: list.splits prod.splits)
qed

declare run_tasks.simps [simp del]

text \<open>The body of the loop that drains the channel.\<close>

definition drain_step :: "SystemStatus \<Rightarrow> statusResponse \<Rightarrow> SystemStatus" where
  "drain_step systemStatus status =
     (let nodeStatus = sr_NodeStatus status;
          nodeStatus = (if sr_err status \<noteq> None
                        then Some (unknownNodeStatus (sr_member status))
                        else nodeStatus)
      in systemStatus\<lparr>ss_Nodes := ss_Nodes systemStatus @ [nodeStatus]\<rparr>)"

text \<open>
  Modelled from the spec: \<^verbatim>\<open>setSystemStatus\<close> is outside the given sources. The spec
  has it apply the rollup of the node statuses to the status of the system; the rollup
  itself is the parameter \<open>rollup\<close>, so what is proved holds for every rollup.
\<close>

definition setSystemStatus ::
    "(NodeStatus option list \<Rightarrow> SystemStatus_Type) \<Rightarrow> SystemStatus \<Rightarrow> SystemStatus" where
  "setSystemStatus rollup status = status\<lparr>ss_Status := rollup (ss_Nodes status)\<rparr>"

text \<open>
  What is outside the agent during one collection: the time that \<^verbatim>\<open>pb.NewTimestamp\<close>
  reads, the schedule of the member tasks, the rollup, and the answer of the cache to
  \<^verbatim>\<open>UpdateStatus\<close>.
\<close>

record cycle_env =
  ce_now :: Timestamp
  ce_sched :: schedule
  ce_rollup :: "NodeStatus option list \<Rightarrow> SystemStatus_Type"
  ce_UpdateStatus :: "error option"

definition collectStatus ::
    "Context \<Rightarrow> cycle_env \<Rightarrow> agent \<Rightarrow> ((error + SystemStatus) \<times> agent) option" where
  "collectStatus ctx env r =
     (let systemStatus = \<lparr> ss_Status = SystemStatus_Unknown, ss_Timestamp = ce_now env,
                           ss_Nodes = [] \<rparr>
      in case serf_Members (serfClient r) of
           Inl err \<Rightarrow> Some (Inl (Wrap err ''failed to query serf members''), r)
         | Inr members \<Rightarrow>
            (case run_tasks ctx members (ce_sched env) ([], r) of
               None \<Rightarrow> None
             | Some (statuses, r1) \<Rightarrow>
                Some (Inr (setSystemStatus (ce_rollup env)
                            (foldl drain_step systemStatus statuses)), r1)))"

text \<open>
  Modelled from the spec: the cache is outside the given sources. The spec has
  \<^verbatim>\<open>UpdateStatus\<close> store the status it is given; an update that answers with an error
  is taken to store nothing.
\<close>

definition UpdateStatus :: "error option \<Rightarrow> SystemStatus \<Rightarrow> agent \<Rightarrow> error option \<times> agent" where
  "UpdateStatus answer status r =
     (case answer of
        Some err \<Rightarrow> (Some err, r)
      | None \<Rightarrow> (None, r\<lparr>cache := Some status\<rparr>))"

text \<open>
  The function that \<^verbatim>\<open>statusUpdateLoop\<close> starts as a goroutine at each tick: it
  collects the status and, when that succeeds, writes it to the cache. Errors are logged.
\<close>

definition collection :: "Context \<Rightarrow> cycle_env \<Rightarrow> agent \<Rightarrow> agent option" where
  "collection ctx env r =
     (case collectStatus ctx env r of
        None \<Rightarrow> None
      | Some (Inl err, r1) \<Rightarrow> Some r1
      | Some (Inr status, r1) \<Rightarrow> Some (snd (UpdateStatus (ce_UpdateStatus env) status r1)))"

section \<open>The status update loop and the goroutines around it\<close>

text \<open>
  \<^verbatim>\<open>statusUpdateLoop\<close> runs concurrently with the collections it starts and with
  the callers of the agent. The state of the whole is the agent, the place the loop is at,
  and for every collection started so far the state of its context and whether its
  goroutine is still running. A step is one move of one of the parties; time is not
  measured, a timer may fire whenever it is armed.
\<close>

text \<open>
  The places of the loop: not started; in the outer \<^verbatim>\<open>select\<close>; past the receive from
  the timer and before the collection is started; in the inner \<^verbatim>\<open>select\<close>, waiting
  for the collection of that number; returned.
\<close>

datatype loop_pc =
  loop_idle
  | loop_tick
  | loop_fired
  | loop_wait nat
  | loop_exited

record cycle =
  cy_ctx :: Context
  cy_running :: bool

record system =
  ag :: agent
  loop :: loop_pc
  cycles :: "cycle list"

text \<open>\<^verbatim>\<open>cancel()\<close> of a context: the first cause of its end stays.\<close>

definition cancel :: "Context \<Rightarrow> Context" where
  "cancel c = (if c = ctx_Live then ctx_Canceled else c)"

text \<open>
  The steps, with the place in \<^verbatim>\<open>agent.go\<close> each comes from.
  \<^item> \<open>start\<close>: \<^verbatim>\<open>Start\<close> makes the channel and starts the loop, which waits in the
    outer \<^verbatim>\<open>select\<close>.
  \<^item> \<open>timer\<close>: the outer \<^verbatim>\<open>select\<close> receives from the timer. A new timer has
    not fired when the loop reaches the outer \<^verbatim>\<open>select\<close>, and a \<^verbatim>\<open>select\<close>
    that waits is released by the first of its channels that is ready, so with
    \<^verbatim>\<open>done\<close> closed the \<^verbatim>\<open>select\<close> takes that case: the receive from the
    timer needs the channel open.
  \<^item> \<open>spawn\<close>: after the receive from the timer the loop derives the child context,
    starts the collection and waits in the inner \<^verbatim>\<open>select\<close>. Nothing reads
    \<^verbatim>\<open>done\<close> between the receive and the \<^verbatim>\<open>go\<close> statement, so this step does not
    depend on the channel: a \<^verbatim>\<open>Close\<close> may fall between the two.
  \<^item> \<open>stop_at_tick\<close>: the outer \<^verbatim>\<open>select\<close> receives from \<^verbatim>\<open>done\<close>; the loop
    returns.
  \<^item> \<open>ctx_done\<close>: the inner \<^verbatim>\<open>select\<close> receives from \<^verbatim>\<open>ctx.Done()\<close>; the loop
    goes round.
  \<^item> \<open>stop_at_wait\<close>: the inner \<^verbatim>\<open>select\<close> receives from \<^verbatim>\<open>done\<close>; the loop
    cancels the child context and returns.
  \<^item> \<open>deadline\<close>: the timeout of a context passes.
  \<^item> \<open>finish\<close>: a collection returns; its deferred \<^verbatim>\<open>cancel()\<close> runs. The
    collection's effect on the agent takes place at this step.
  \<^item> \<open>close\<close>, \<open>local_status\<close>, \<open>add_checker\<close>: calls from outside.
  \<^item> \<open>outside\<close>: what serf, the peers and the checkers answer changes.
\<close>

inductive step :: "system \<Rightarrow> system \<Rightarrow> bool" where
  start:
    "loop s = loop_idle \<Longrightarrow>
     step s (s\<lparr>ag := snd (Start (ag s)), loop := loop_tick\<rparr>)"
| timer:
    "loop s = loop_tick \<Longrightarrow> done_ch (ag s) = chan_open \<Longrightarrow>
     step s (s\<lparr>loop := loop_fired\<rparr>)"
| spawn:
    "loop s = loop_fired \<Longrightarrow>
     step s (s\<lparr>loop := loop_wait (length (cycles s)),
               cycles := cycles s @ [\<lparr>cy_ctx = ctx_Live, cy_running = True\<rparr>]\<rparr>)"
| stop_at_tick:
    "loop s = loop_tick \<Longrightarrow> done_ch (ag s) = chan_closed \<Longrightarrow>
     step s (s\<lparr>loop := loop_exited\<rparr>)"
| ctx_done:
    "loop s = loop_wait k \<Longrightarrow> k < length (cycles s) \<Longrightarrow>
     cy_ctx (cycles s ! k) \<noteq> ctx_Live \<Longrightarrow>
     step s (s\<lparr>loop := loop_tick\<rparr>)"
| stop_at_wait:
    "loop s = loop_wait k \<Longrightarrow> k < length (cycles s) \<Longrightarrow>
     done_ch (ag s) = chan_closed \<Longrightarrow>
     step s (s\<lparr>loop := loop_exited,
               cycles := (cycles s)[k := (cycles s ! k)\<lparr>cy_ctx := cancel (cy_ctx (cycles s ! k))\<rparr>]\<rparr>)"
| deadline:
    "k < length (cycles s) \<Longrightarrow> cy_ctx (cycles s ! k) = ctx_Live \<Longrightarrow>
     step s (s\<lparr>cycles := (cycles s)[k := (cycles s ! k)\<lparr>cy_ctx := ctx_DeadlineExceeded\<rparr>]\<rparr>)"
| finish:
    "k < length (cycles s) \<Longrightarrow> cy_running (cycles s ! k) \<Longrightarrow>
     collection (cy_ctx (cycles s ! k)) env (ag s) = Some r \<Longrightarrow>
     step s (s\<lparr>ag := r,
               cycles := (cycles s)[k := \<lparr>cy_ctx = cancel (cy_ctx (cycles s ! k)),
                                          cy_running = False\<rparr>]\<rparr>)"
| close:
    "Close (ag s) = Some (err, r) \<Longrightarrow> step s (s\<lparr>ag := r\<rparr>)"
| local_status:
    "LocalStatus (ag s) = Some (status, r) \<Longrightarrow> step s (s\<lparr>ag := r\<rparr>)"
| add_checker:
    "step s (s\<lparr>ag := AddChecker checker (ag s)\<rparr>)"
| outside:
    "map Checker_Name cs = map Checker_Name (Checkers (ag s)) \<Longrightarrow>
     step s (s\<lparr>ag := (ag s)\<lparr>Checkers := cs, serfClient := sc, dialRPC := d\<rparr>\<rparr>)"

text \<open>The states an agent made by \<^verbatim>\<open>New\<close> can come to.\<close>

inductive reach :: "system \<Rightarrow> bool" where
  created: "New config env = Inr r \<Longrightarrow> reach \<lparr>ag = r, loop = loop_idle, cycles = []\<rparr>"
| moved: "reach s \<Longrightarrow> step s s' \<Longrightarrow> reach s'"

text \<open>The number of collections whose goroutine is running.\<close>

definition in_flight :: "system \<Rightarrow> nat" where
  "in_flight s = length (filter cy_running (cycles s))"

section \<open>Histories of the slot\<close>

text \<open>
  Local collections can overlap: a collection that outlives its deadline is still running
  when the next tick starts another. What happens to the registry and to the slot of the
  latest local status is then a sequence of these events: a checker is added; a collection
  runs its checks (the first phase of \<^verbatim>\<open>collectLocalStatus\<close>); one of the collections
  that have run their checks stores its status (the second phase); \<^verbatim>\<open>LocalStatus\<close> is
  called. \<open>call_store j\<close> names the collection by its position among those that wait to
  store, taken modulo their number; it is nothing when none waits.
\<close>

datatype call =
  call_AddChecker Checker
  | call_checks Context Member
  | call_store nat
  | call_LocalStatus

text \<open>
  Along a history: the agent; the collections that have run their checks and not yet stored,
  each with its number and its status; how many collections have run their checks; and the
  number of the collection whose status the slot holds (\<open>0\<close> for the placeholder). The
  number of a collection is its place in the order in which the collections ran their
  checks: the age of its snapshot.
\<close>

record hist =
  h_agent :: agent
  h_pending :: "(nat \<times> NodeStatus) list"
  h_count :: nat
  h_slot :: nat

definition hist_start :: "agent \<Rightarrow> hist" where
  "hist_start r = \<lparr> h_agent = r, h_pending = [], h_count = 0, h_slot = 0 \<rparr>"

text \<open>
  \<open>history calls h\<close> runs the events and returns what every \<^verbatim>\<open>LocalStatus\<close> returned,
  with the number of the collection it came from, and the status every collection computed,
  with its number.
\<close>

fun history ::
    "call list \<Rightarrow> hist
       \<Rightarrow> ((nat \<times> NodeStatus option) list \<times> (nat \<times> NodeStatus) list) option" where
  "history [] h = Some ([], [])"
| "history (call_AddChecker c # calls) h =
     history calls (h\<lparr>h_agent := AddChecker c (h_agent h)\<rparr>)"
| "history (call_checks ctx local # calls) h =
     (case collectLocalStatus_checks ctx local (h_agent h) of
        (Inl err, r1) \<Rightarrow> history calls (h\<lparr>h_agent := r1\<rparr>)
      | (Inr status, r1) \<Rightarrow>
         (case history calls (h\<lparr>h_agent := r1,
                                 h_pending := h_pending h @ [(Suc (h_count h), status)],
                                 h_count := Suc (h_count h)\<rparr>) of
            None \<Rightarrow> None
          | Some (reads, collected) \<Rightarrow>
             Some (reads, (Suc (h_count h), status) # collected)))"
| "history (call_store j # calls) h =
     (if h_pending h = [] then history calls h
      else
        let i = j mod length (h_pending h)
        in case collectLocalStatus_store (snd (h_pending h ! i)) (h_agent h) of
             None \<Rightarrow> None
           | Some (res, r1) \<Rightarrow>
              history calls (h\<lparr>h_agent := r1,
                               h_pending := remove_nth i (h_pending h),
                               h_slot := fst (h_pending h ! i)\<rparr>))"
| "history (call_LocalStatus # calls) h =
     (case LocalStatus (h_agent h) of
        None \<Rightarrow> None
      | Some (status, r1) \<Rightarrow>
         (case history calls (h\<lparr>h_agent := r1\<rparr>) of
            None \<Rightarrow> None
          | Some (reads, collected) \<Rightarrow> Some ((h_slot h, status) # reads, collected)))"

text \<open>
  \<open>serial calls p\<close>, where \<open>p\<close> collections wait to store: in the history no collection
  runs its checks while another waits to store, that is, the collections do not overlap.
\<close>

fun serial :: "call list \<Rightarrow> nat \<Rightarrow> bool" where
  "serial [] p = True"
| "serial (call_AddChecker c # calls) p = serial calls p"
| "serial (call_checks ctx local # calls) p = (p = 0 \<and> serial calls 1)"
| "serial (call_store j # calls) p = serial calls (p - 1)"
| "serial (call_LocalStatus # calls) p = serial calls p"

section \<open>Cancellation as the specification words it\<close>

text \<open>
  A node status reports a checker as cancelled when it holds a probe of that checker that
  is Failed with the cause \<open>cancelled\<close>.
\<close>

definition reports_cancelled :: "Checker \<Rightarrow> NodeStatus \<Rightarrow> bool" where
  "reports_cancelled c status =
     list_ex (\<lambda>p. probe_Checker p = Checker_Name c \<and> probe_Status p = Probe_Failed
                  \<and> probe_Error p = ''cancelled'')
       (ns_Probes status)"

section \<open>Notions used by the properties\<close>

text \<open>
  The query of a member fails when the member is a peer (not the agent itself) and either
  dialling it or its \<^verbatim>\<open>LocalStatus\<close> answers with an error.
\<close>

definition query_fails :: "Context \<Rightarrow> agent \<Rightarrow> Member \<Rightarrow> bool" where
  "query_fails ctx r member =
     (name r \<noteq> m_Name member \<and>
      (case dialRPC r member of
         Inl err \<Rightarrow> True
       | Inr client \<Rightarrow> (case client ctx of Inl err \<Rightarrow> True | Inr status \<Rightarrow> False)))"

text \<open>The number of nodes in the status of a collection that returned one.\<close>

definition node_count :: "((error + SystemStatus) \<times> agent) option \<Rightarrow> nat option" where
  "node_count res =
     (case res of
        Some (Inr systemStatus, r) \<Rightarrow> Some (length (ss_Nodes systemStatus))
      | _ \<Rightarrow> None)"

text \<open>
  \<open>frame r r'\<close>: the agent \<open>r'\<close> differs from \<open>r\<close> at most in the slot of the local
  status and in the log, and a filled slot stays filled.
\<close>

definition frame :: "agent \<Rightarrow> agent \<Rightarrow> bool" where
  "frame r r' = (r' = r\<lparr>localStatus := localStatus r', logged := logged r'\<rparr>
                 \<and> (localStatus r \<noteq> None \<longrightarrow> localStatus r' \<noteq> None))"

text \<open>
  What holds of every state an agent can come to: the mutex is free between the calls, the
  slot is filled, the channel \<^verbatim>\<open>done\<close> is nil exactly before \<^verbatim>\<open>Start\<close>, the loop
  waits for a collection that was started, and a context that is not done belongs to the
  collection the loop waits for, whose goroutine is running.
\<close>

definition sound :: "system \<Rightarrow> bool" where
  "sound s =
     (\<not> mu (ag s) \<and> localStatus (ag s) \<noteq> None
      \<and> (loop s = loop_idle \<longleftrightarrow> done_ch (ag s) = chan_nil)
      \<and> (\<forall>k. loop s = loop_wait k \<longrightarrow> k < length (cycles s))
      \<and> (\<forall>k<length (cycles s). cy_ctx (cycles s ! k) = ctx_Live \<longrightarrow>
            loop s = loop_wait k \<and> cy_running (cycles s ! k)))"

text \<open>
  The number of moves the loop can still make once the channel \<^verbatim>\<open>done\<close> is closed:
  none when it has returned; one from the outer \<^verbatim>\<open>select\<close> (it returns); two from
  the inner \<^verbatim>\<open>select\<close> (it returns, or goes round and returns); three when it has
  yet to start the collection whose tick it received.
\<close>

fun loop_rank :: "loop_pc \<Rightarrow> nat" where
  "loop_rank loop_exited = 0"
| "loop_rank loop_tick = 1"
| "loop_rank (loop_wait k) = 2"
| "loop_rank loop_fired = 3"
| "loop_rank loop_idle = 4"



section \<open>Example values\<close>

definition probe_ok :: Probe where
  "probe_ok = \<lparr> probe_Checker = ''ok'', probe_Status = Probe_Running, probe_Detail = [],
                probe_Error = [], probe_Timestamp = 0 \<rparr>"

definition checker_ok :: Checker where
  "checker_ok = Checker ''ok'' [probe_ok]"

definition member_a :: Member where
  "member_a = \<lparr> m_Name = ''a'', m_Addr = ''10.0.0.1'', m_Port = 7946, m_Tags = Map.empty,
                 m_Status = ''alive'' \<rparr>"

definition member_b :: Member where
  "member_b = \<lparr> m_Name = ''b'', m_Addr = ''10.0.0.2'', m_Port = 7946, m_Tags = Map.empty,
                 m_Status = ''alive'' \<rparr>"

definition serf_ab :: serfClient where
  "serf_ab = \<lparr> serf_Members = Inr [member_a, member_b], serf_Close = None \<rparr>"

definition config_a :: Config where
  "config_a = \<lparr> cfg_Name = ''a'', cfg_RPCAddrs = [''127.0.0.1:7575''],
                 cfg_SerfRPCAddr = ''127.0.0.1:7373'', cfg_Peers = [], cfg_Tags = None,
                 cfg_Cache = None \<rparr>"

definition env_a :: new_env where
  "env_a = \<lparr> ne_ClientFromConfig = Inr serf_ab, ne_UpdateTags = None,
              ne_Listen = (\<lambda>addr. None),
              ne_defaultDialRPC = (\<lambda>member. Inl (Error ''connection refused'')) \<rparr>"

text \<open>The agent that \<open>New config_a env_a\<close> makes: node \<open>a\<close>, whose peer \<open>b\<close> cannot be dialled.\<close>

definition agent_a :: agent where
  "agent_a = \<lparr> Checkers = [], serfClient = serf_ab, name = ''a'',
                rpc_listeners = [''127.0.0.1:7575''], rpc_stopped = False, cache = None,
                dialRPC = (\<lambda>member. Inl (Error ''connection refused'')),
                done_ch = chan_nil, mu = False,
                localStatus = Some (emptyNodeStatus ''a''), logged = [] \<rparr>"

text \<open>The same agent after \<^verbatim>\<open>Start\<close> and \<^verbatim>\<open>Close\<close>.\<close>

definition agent_closing :: agent where
  "agent_closing = agent_a\<lparr>rpc_stopped := True, done_ch := chan_closed\<rparr>"

text \<open>The started agent when serf cannot list the members.\<close>

definition agent_no_serf :: agent where
  "agent_no_serf =
     agent_a\<lparr>serfClient := \<lparr> serf_Members = Inl (Error ''EOF''), serf_Close = None \<rparr>,
             done_ch := chan_open\<rparr>"

text \<open>
  A collection in which the task of \<open>b\<close> finishes before that of \<open>a\<close> and both send, and
  one in which both tasks take the \<^verbatim>\<open>done\<close> case when they can.
\<close>

definition env_cycle :: cycle_env where
  "env_cycle = \<lparr> ce_now = 0, ce_sched = [(1, False), (0, False)],
                  ce_rollup = (\<lambda>nodes. SystemStatus_Unknown), ce_UpdateStatus = None \<rparr>"

definition env_drop :: cycle_env where
  "env_drop = \<lparr> ce_now = 0, ce_sched = [(0, True), (0, True)],
                 ce_rollup = (\<lambda>nodes. SystemStatus_Unknown), ce_UpdateStatus = None \<rparr>"

text \<open>
  States of the loop: the agent \<open>a\<close> created, started, past the first receive from the
  timer, waiting for its first collection, that collection past its deadline, the loop back
  at the timer, past the second receive, and the second collection started while the
  goroutine of the first is still running.
\<close>

definition agent_started :: agent where
  "agent_started = agent_a\<lparr>done_ch := chan_open\<rparr>"

definition sys_created :: system where
  "sys_created = \<lparr> ag = agent_a, loop = loop_idle, cycles = [] \<rparr>"

definition sys_started :: system where
  "sys_started = \<lparr> ag = agent_started, loop = loop_tick, cycles = [] \<rparr>"

definition sys_fired :: system where
  "sys_fired = \<lparr> ag = agent_started, loop = loop_fired, cycles = [] \<rparr>"

definition sys_waiting :: system where
  "sys_waiting = \<lparr> ag = agent_started, loop = loop_wait 0,
                    cycles = [\<lparr>cy_ctx = ctx_Live, cy_running = True\<rparr>] \<rparr>"

definition sys_expired :: system where
  "sys_expired = \<lparr> ag = agent_started, loop = loop_wait 0,
                    cycles = [\<lparr>cy_ctx = ctx_DeadlineExceeded, cy_running = True\<rparr>] \<rparr>"

definition sys_next :: system where
  "sys_next = \<lparr> ag = agent_started, loop = loop_tick,
                 cycles = [\<lparr>cy_ctx = ctx_DeadlineExceeded, cy_running = True\<rparr>] \<rparr>"

definition sys_refired :: system where
  "sys_refired = \<lparr> ag = agent_started, loop = loop_fired,
                    cycles = [\<lparr>cy_ctx = ctx_DeadlineExceeded, cy_running = True\<rparr>] \<rparr>"

definition sys_overrun :: system where
  "sys_overrun = \<lparr> ag = agent_started, loop = loop_wait 1,
                    cycles = [\<lparr>cy_ctx = ctx_DeadlineExceeded, cy_running = True\<rparr>,
                              \<lparr>cy_ctx = ctx_Live, cy_running = True\<rparr>] \<rparr>"







text \<open>
  The status the agent \<open>a\<close> computes with an empty registry, and the one it computes with
  the checker \<open>ok\<close>.
\<close>

definition status_first :: NodeStatus where
  "status_first =
     \<lparr> ns_Name = ''a'', ns_Status = NodeStatus_Unknown,
       ns_MemberStatus =
         Some \<lparr> ms_Name = ''a'', ms_Status = MemberStatus_Alive, ms_Tags = Map.empty,
                ms_Addr = ''10.0.0.1:7946'' \<rparr>,
       ns_Probes = [] \<rparr>"

definition status_second :: NodeStatus where
  "status_second =
     \<lparr> ns_Name = ''a'', ns_Status = NodeStatus_Healthy,
       ns_MemberStatus =
         Some \<lparr> ms_Name = ''a'', ms_Status = MemberStatus_Alive, ms_Tags = Map.empty,
                ms_Addr = ''10.0.0.1:7946'' \<rparr>,
       ns_Probes = [probe_ok] \<rparr>"

text \<open>
  A history without overlap: a read, a collection that runs its checks and stores, a read,
  a checker added, a second collection, a read. And a history with overlap: the first
  collection runs its checks, a checker is added, the second collection runs its checks
  and stores, a read, the first collection stores, a read.
\<close>

definition calls_serial :: "call list" where
  "calls_serial =
     [call_LocalStatus, call_checks ctx_Live member_a, call_store 0, call_LocalStatus,
      call_AddChecker checker_ok, call_checks ctx_Canceled member_a, call_store 0,
      call_LocalStatus]"

definition calls_overlap :: "call list" where
  "calls_overlap =
     [call_checks ctx_Live member_a, call_AddChecker checker_ok,
      call_checks ctx_Live member_a, call_store 1, call_LocalStatus, call_store 0,
      call_LocalStatus]"

section \<open>Properties\<close>

subsection \<open>The example values\<close>

lemma New_agent_a: "New config_a env_a = Inr agent_a"
  by (simp add: New_def config_a_def env_a_def agent_a_def)

lemma Close_agent_a: "Close (snd (Start agent_a)) = Some (None, agent_closing)"
  by (simp add: Close_def Start_def agent_a_def agent_closing_def serf_ab_def)

subsection \<open>Running the checks\<close>

lemma foldl_Add: "foldl Add reporter ps = reporter @ ps"
  by (induction ps arbitrary: reporter) (simp_all add: Add_def)

lemma fold_Check_appends:
  assumes "\<And>c rep. c \<in> set cs \<Longrightarrow> Check c rep = rep @ Check c []"
  shows "fold Check cs rep = rep @ fold Check cs []"
  using assms
proof (induction cs arbitrary: rep)
  case Nil
  show ?case by simp
next
  case (Cons c cs)
  have c: "Check c rep' = rep' @ Check c []" for rep'
    by (rule Cons.prems) simp
  have cs: "fold Check cs rep' = rep' @ fold Check cs []" for rep'
    by (rule Cons.IH) (rule Cons.prems, simp)
  have "fold Check (c # cs) rep = fold Check cs (Check c rep)" by simp
  also have "\<dots> = Check c rep @ fold Check cs []" by (rule cs)
  also have "\<dots> = (rep @ Check c []) @ fold Check cs []" by (subst c) (rule refl)
  also have "\<dots> = rep @ (Check c [] @ fold Check cs [])" by simp
  also have "\<dots> = rep @ fold Check cs (Check c [])" by (subst cs [of "Check c []"]) (rule refl)
  also have "\<dots> = rep @ fold Check (c # cs) []" by simp
  finally show ?case .
qed

lemma Check_appends: "Check c reporter = reporter @ Check c []"
proof (induction c arbitrary: reporter)
  case (Checker n ps)
  show ?case by (simp add: foldl_Add)
next
  case (compositeChecker n cs)
  have "fold Check cs reporter = reporter @ fold Check cs []"
    by (rule fold_Check_appends) (rule compositeChecker)
  then show ?case by simp
qed

lemma run_checkers_probes:
  "fst (run_checkers cs (reporter, lg)) = reporter @ concat (map (\<lambda>c. Check c []) cs)"
proof (induction cs arbitrary: reporter lg)
  case Nil
  show ?case by simp
next
  case (Cons c cs)
  have "fst (run_checkers (c # cs) (reporter, lg)) = Check c reporter @ concat (map (\<lambda>c. Check c []) cs)"
    by (simp add: Cons)
  also have "\<dots> = (reporter @ Check c []) @ concat (map (\<lambda>c. Check c []) cs)"
    by (subst Check_appends) (rule refl)
  finally show ?case by simp
qed

lemma run_checkers_log:
  "snd (run_checkers cs (reporter, lg)) = lg @ map (\<lambda>c. ''running checker '' @ Checker_Name c) cs"
  by (induction cs arbitrary: reporter lg) simp_all

lemma runChecks_probes:
  "ns_Probes (fst (runChecks ctx r)) = concat (map (\<lambda>c. Check c []) (Checkers r))"
  using run_checkers_probes [of "Checkers r" "[]" "logged r"]
  by (simp add: runChecks_def GetProbes_def split_beta)

lemma runChecks_logged:
  "logged (snd (runChecks ctx r)) = logged r @ map (\<lambda>c. ''running checker '' @ Checker_Name c) (Checkers r)"
  using run_checkers_log [of "Checkers r" "[]" "logged r"]
  by (simp add: runChecks_def split_beta)

text \<open>
  C9. The probes of the node status that a local collection produces are in the order of
  the registry: \<^verbatim>\<open>runChecks\<close> hands the accumulator to the checkers one after the other
  in the order of the registry, so the probes are the probes of the first checker, then
  those of the second, and so on. The checkers are run one at a time.
\<close>

theorem runChecks_registry_order:
  "ns_Probes (fst (runChecks ctx r)) = concat (map (\<lambda>c. Check c []) (Checkers r))"
  by (rule runChecks_probes)

text \<open>
  C3, as the code has it. \<^verbatim>\<open>runChecks\<close> does not consult the context: a cancelled or
  expired context gives the same result as a live one. Every checker of the registry is
  run (one log line for each, in order) and the node status holds the probes the checkers
  reported, in order; no checker is left out and no probe is made up for a cancellation.
\<close>

theorem runChecks_ignores_context:
  "runChecks ctx r = runChecks ctx_Live r
   \<and> ns_Probes (fst (runChecks ctx r)) = concat (map (\<lambda>c. Check c []) (Checkers r))
   \<and> logged (snd (runChecks ctx r)) =
       logged r @ map (\<lambda>c. ''running checker '' @ Checker_Name c) (Checkers r)"
  using runChecks_probes [of ctx r] runChecks_logged [of ctx r]
  by (simp add: runChecks_def)

text \<open>
  C3, as the claim is worded, fails: with the context cancelled before the checks start,
  the checker \<open>ok\<close> is not reported as a Failed probe with the cause \<open>cancelled\<close>; its own
  Running probe is reported.
\<close>

theorem runChecks_cancelled_counterexample:
  "\<not> reports_cancelled checker_ok
        (fst (runChecks ctx_Canceled (AddChecker checker_ok agent_a)))"
  by (simp add: reports_cancelled_def runChecks_def AddChecker_def agent_a_def checker_ok_def
      probe_ok_def Add_def GetProbes_def)

subsection \<open>The slot of the latest local status\<close>

lemma frame_refl: "frame r r"
  by (simp add: frame_def)

lemma frame_trans: "frame r r1 \<Longrightarrow> frame r1 r2 \<Longrightarrow> frame r r2"
  unfolding frame_def
  by (metis (no_types, lifting) agent.surjective agent.update_convs(10) agent.update_convs(11))

lemma frame_fields:
  "frame r r' \<Longrightarrow> mu r' = mu r \<and> done_ch r' = done_ch r \<and> name r' = name r
     \<and> dialRPC r' = dialRPC r \<and> serfClient r' = serfClient r \<and> cache r' = cache r
     \<and> Checkers r' = Checkers r"
  unfolding frame_def by (metis agent.select_convs agent.surjective agent.update_convs(10) agent.update_convs(11))

lemma collectLocalStatus_eq:
  assumes "\<not> mu r"
  shows "collectLocalStatus ctx local r =
           Some (Inr ((fst (runChecks ctx r))\<lparr>ns_MemberStatus := Some (statusFromMember local)\<rparr>),
                 r\<lparr>localStatus := Some ((fst (runChecks ctx r))\<lparr>ns_MemberStatus := Some (statusFromMember local)\<rparr>),
                   logged := logged (snd (runChecks ctx r))\<rparr>)"
  using assms
  by (cases r)
     (simp add: collectLocalStatus_def runChecks_def Lock_def Unlock_def split_beta Let_def)

lemma collectLocalStatus_returns:
  assumes "\<not> mu r"
  shows "\<exists>status r'. collectLocalStatus ctx local r = Some (Inr status, r') \<and> frame r r'
           \<and> localStatus r' = Some status"
  unfolding collectLocalStatus_eq [OF assms]
  by (simp add: frame_def)

text \<open>
  C6. \<^verbatim>\<open>LocalStatus\<close> returns what the slot holds and leaves the agent as it was: it
  runs no checker (the log is the same) and changes no field; the mutex, free before the
  call, is free after it. What the slot holds is what the last local collection stored.
\<close>

theorem LocalStatus_serves_slot:
  assumes "\<not> mu r"
  shows "LocalStatus r = Some (localStatus r, r)
         \<and> (\<exists>status r1. collectLocalStatus ctx local r = Some (Inr status, r1)
               \<and> LocalStatus r1 = Some (Some status, r1))"
proof -
  have 1: "LocalStatus r = Some (localStatus r, r)"
    using assms by (simp add: LocalStatus_def recentLocalStatus_def Lock_def Unlock_def)
  obtain status r1 where c: "collectLocalStatus ctx local r = Some (Inr status, r1)"
    and f: "frame r r1" and l: "localStatus r1 = Some status"
    using collectLocalStatus_returns [OF assms] by blast
  have "\<not> mu r1" using frame_fields [OF f] assms by simp
  then have "LocalStatus r1 = Some (Some status, r1)"
    using l by (simp add: LocalStatus_def recentLocalStatus_def Lock_def Unlock_def)
  then show ?thesis using 1 c by blast
qed

theorem LocalStatus_serves_slot_witness:
  "\<not> mu agent_a
   \<and> LocalStatus agent_a = Some (Some (emptyNodeStatus ''a''), agent_a)
   \<and> (\<exists>status r1. collectLocalStatus ctx_Live member_a agent_a = Some (Inr status, r1)
         \<and> LocalStatus r1 = Some (Some status, r1))"
proof -
  have u: "\<not> mu agent_a" by (simp add: agent_a_def)
  have l: "localStatus agent_a = Some (emptyNodeStatus ''a'')" by (simp add: agent_a_def)
  show ?thesis
    using LocalStatus_serves_slot [OF u, of ctx_Live member_a] u l by simp
qed

subsection \<open>Collecting the status of the cluster\<close>

lemma member_task_returns:
  assumes "\<not> mu r"
  shows "\<exists>resp r'. member_task ctx m pick (respc, r) = Some (send_or_done pick r respc resp, r')
           \<and> sr_member resp = m \<and> (query_fails ctx r m \<longrightarrow> sr_err resp \<noteq> None) \<and> frame r r'"
proof (cases "name r = m_Name m")
  case True
  obtain status r' where c: "collectLocalStatus ctx m r = Some (Inr status, r')" and f: "frame r r'"
    using collectLocalStatus_returns [OF assms] by blast
  have d: "done_ch r' = done_ch r" using frame_fields [OF f] by simp
  let ?resp = "\<lparr> sr_NodeStatus = Some status, sr_member = m, sr_err = None \<rparr>"
  have "member_task ctx m pick (respc, r) = Some (send_or_done pick r respc ?resp, r')"
    using True c d
    by (simp add: member_task_def getLocalStatus_def send_or_done_def Let_def)
  moreover have "sr_member ?resp = m" by simp
  moreover have "\<not> query_fails ctx r m" using True by (simp add: query_fails_def)
  ultimately show ?thesis using f by blast
next
  case False
  let ?resp0 = "\<lparr> sr_NodeStatus = None, sr_member = m, sr_err = None \<rparr>"
  let ?resp = "(case dialRPC r m of
                      Inl err \<Rightarrow> ?resp0\<lparr>sr_err := Some (Wrap err [])\<rparr>
                    | Inr client \<Rightarrow>
                       (case client ctx of
                          Inl err \<Rightarrow> ?resp0\<lparr>sr_err := Some (Wrap err [])\<rparr>
                        | Inr status \<Rightarrow> ?resp0\<lparr>sr_NodeStatus := status\<rparr>))"
  have "member_task ctx m pick (respc, r) = Some (send_or_done pick r respc ?resp, r)"
    using False by (simp add: member_task_def getStatusFrom_def Let_def)
  moreover have "sr_member ?resp = m" by (simp split: sum.splits)
  moreover have "query_fails ctx r m \<longrightarrow> sr_err ?resp \<noteq> None"
    by (simp add: query_fails_def split: sum.splits)
  ultimately show ?thesis using frame_refl [of r] by blast
qed

lemma in_set_remove_nth:
  "m \<in> set xs \<Longrightarrow> j < length xs \<Longrightarrow> m = xs ! j \<or> m \<in> set (remove_nth j xs)"
  unfolding remove_nth_def
  by (metis Cons_nth_drop_Suc append_take_drop_id in_set_conv_decomp set_ConsD set_append UnE UnI1 UnI2)

lemma query_fails_frame: "frame r r' \<Longrightarrow> query_fails ctx r' m = query_fails ctx r m"
  using frame_fields [of r r'] by (simp add: query_fails_def)

lemma task_index_less: "0 < n \<Longrightarrow> task_index sched n < n"
  by (simp add: task_index_def split: list.splits prod.splits)

lemma length_remove_nth: "j < length xs \<Longrightarrow> length (remove_nth j xs) = length xs - 1"
  by (simp add: remove_nth_def)

lemma run_tasks_returns:
  assumes "\<not> mu r"
  shows "\<exists>resps r'. run_tasks ctx running sched (respc, r) = Some (respc @ resps, r')
           \<and> frame r r'
           \<and> length resps \<le> length running
           \<and> (done_ch r \<noteq> chan_closed \<longrightarrow> length resps = length running)
           \<and> (done_ch r \<noteq> chan_closed \<longrightarrow>
                (\<forall>m\<in>set running. query_fails ctx r m \<longrightarrow>
                   (\<exists>resp\<in>set resps. sr_member resp = m \<and> sr_err resp \<noteq> None)))"
  using assms
proof (induction "length running" arbitrary: running sched respc r)
  case 0
  then show ?case by (simp add: run_tasks.simps frame_refl)
next
  case (Suc n)
  let ?j = "task_index sched (length running)"
  have ne: "running \<noteq> []" using Suc.hyps(2) by auto
  have j: "?j < length running" using ne by (simp add: task_index_less)
  obtain resp r1 where
    t: "member_task ctx (running ! ?j) (task_pick sched) (respc, r)
          = Some (send_or_done (task_pick sched) r respc resp, r1)"
    and m: "sr_member resp = running ! ?j"
    and q: "query_fails ctx r (running ! ?j) \<longrightarrow> sr_err resp \<noteq> None"
    and f1: "frame r r1"
    using member_task_returns [OF Suc.prems] by blast
  have mu1: "\<not> mu r1" and d1: "done_ch r1 = done_ch r"
    using frame_fields [OF f1] Suc.prems by simp_all
  have len: "n = length (remove_nth ?j running)"
    using Suc.hyps(2) j by (simp add: length_remove_nth)
  let ?sent = "if done_ch r = chan_closed \<and> task_pick sched then [] else [resp]"
  have s: "send_or_done (task_pick sched) r respc resp = respc @ ?sent"
    by (simp add: send_or_done_def)
  obtain resps r' where
    rt: "run_tasks ctx (remove_nth ?j running) (tl sched) (respc @ ?sent, r1)
           = Some ((respc @ ?sent) @ resps, r')"
    and f2: "frame r1 r'"
    and le: "length resps \<le> length (remove_nth ?j running)"
    and eq: "done_ch r1 \<noteq> chan_closed \<longrightarrow> length resps = length (remove_nth ?j running)"
    and all: "done_ch r1 \<noteq> chan_closed \<longrightarrow>
                (\<forall>m\<in>set (remove_nth ?j running). query_fails ctx r1 m \<longrightarrow>
                   (\<exists>resp\<in>set resps. sr_member resp = m \<and> sr_err resp \<noteq> None))"
    using Suc.hyps(1) [OF len mu1, where sched = "tl sched" and respc = "respc @ ?sent"] by blast
  have run: "run_tasks ctx running sched (respc, r) = Some (respc @ (?sent @ resps), r')"
    using ne t s rt by (subst run_tasks.simps) (simp add: Let_def)
  have fr: "frame r r'" using f1 f2 by (rule frame_trans)
  have l1: "length (?sent @ resps) \<le> length running"
    using le j by (auto simp: length_remove_nth)
  have l2: "done_ch r \<noteq> chan_closed \<longrightarrow> length (?sent @ resps) = length running"
    using eq d1 j by (auto simp: length_remove_nth)
  have l3: "done_ch r \<noteq> chan_closed \<longrightarrow>
                (\<forall>m\<in>set running. query_fails ctx r m \<longrightarrow>
                   (\<exists>resp\<in>set (?sent @ resps). sr_member resp = m \<and> sr_err resp \<noteq> None))"
  proof (intro impI ballI)
    fix x
    assume opn: "done_ch r \<noteq> chan_closed" and x: "x \<in> set running" and qx: "query_fails ctx r x"
    from in_set_remove_nth [OF x j] show "\<exists>resp\<in>set (?sent @ resps). sr_member resp = x \<and> sr_err resp \<noteq> None"
    proof
      assume "x = running ! ?j"
      then show ?thesis using opn m q qx by auto
    next
      assume "x \<in> set (remove_nth ?j running)"
      moreover have "query_fails ctx r1 x" using qx query_fails_frame [OF f1] by simp
      ultimately obtain resp' where "resp' \<in> set resps" "sr_member resp' = x" "sr_err resp' \<noteq> None"
        using all opn d1 by auto
      then show ?thesis by auto
    qed
  qed
  show ?case using run fr l1 l2 l3 by blast
qed

lemma drain_nodes:
  "ss_Nodes (foldl drain_step systemStatus statuses) =
     ss_Nodes systemStatus @
       map (\<lambda>st. if sr_err st \<noteq> None then Some (unknownNodeStatus (sr_member st))
                  else sr_NodeStatus st) statuses"
  by (induction statuses arbitrary: systemStatus) (simp_all add: drain_step_def)

lemma collectStatus_members:
  assumes "serf_Members (serfClient r) = Inr members"
    and "run_tasks ctx members (ce_sched env) ([], r) = Some (statuses, r1)"
  shows "\<exists>sys. collectStatus ctx env r = Some (Inr sys, r1)
          \<and> ss_Nodes sys =
              map (\<lambda>st. if sr_err st \<noteq> None then Some (unknownNodeStatus (sr_member st))
                         else sr_NodeStatus st) statuses"
  using assms by (simp add: collectStatus_def setSystemStatus_def drain_nodes)

text \<open>
  C1, as the code has it. When serf lists the members, \<^verbatim>\<open>collectStatus\<close> returns a
  system status and no error, whatever the member tasks met. Its nodes are the responses
  drained from the channel, one node for each response in the order of the channel, and a
  response that carries an error is replaced by a node status with the name of its member,
  the status Unknown, the member status derived from the member (name, state, tags,
  address and port) and no probes. When the channel \<^verbatim>\<open>done\<close> is not closed while the
  member tasks deliver, every member whose query fails has that node status among the nodes.
\<close>

theorem collectStatus_substitutes_unknown:
  assumes "serf_Members (serfClient r) = Inr members" and "\<not> mu r"
  shows "\<exists>statuses r1 sys.
           run_tasks ctx members (ce_sched env) ([], r) = Some (statuses, r1)
         \<and> collectStatus ctx env r = Some (Inr sys, r1)
         \<and> ss_Nodes sys =
             map (\<lambda>st. if sr_err st \<noteq> None
                        then Some \<lparr> ns_Name = m_Name (sr_member st),
                                    ns_Status = NodeStatus_Unknown,
                                    ns_MemberStatus =
                                      Some \<lparr> ms_Name = m_Name (sr_member st),
                                             ms_Status = toMemberStatus (m_Status (sr_member st)),
                                             ms_Tags = m_Tags (sr_member st),
                                             ms_Addr = m_Addr (sr_member st) @ '':''
                                                 @ show_nat (unat (m_Port (sr_member st))) \<rparr>,
                                    ns_Probes = [] \<rparr>
                        else sr_NodeStatus st) statuses
         \<and> (done_ch r \<noteq> chan_closed \<longrightarrow>
              (\<forall>m\<in>set members. query_fails ctx r m \<longrightarrow>
                 Some \<lparr> ns_Name = m_Name m,
                        ns_Status = NodeStatus_Unknown,
                        ns_MemberStatus =
                          Some \<lparr> ms_Name = m_Name m,
                                 ms_Status = toMemberStatus (m_Status m),
                                 ms_Tags = m_Tags m,
                                 ms_Addr = m_Addr m @ '':'' @ show_nat (unat (m_Port m)) \<rparr>,
                        ns_Probes = [] \<rparr> \<in> set (ss_Nodes sys)))"
proof -
  obtain statuses r1 where
    rt: "run_tasks ctx members (ce_sched env) ([], r) = Some (statuses, r1)"
    and fails: "done_ch r \<noteq> chan_closed \<longrightarrow>
                (\<forall>m\<in>set members. query_fails ctx r m \<longrightarrow>
                   (\<exists>resp\<in>set statuses. sr_member resp = m \<and> sr_err resp \<noteq> None))"
    using run_tasks_returns [OF assms(2), of ctx members "ce_sched env" "[]"] by auto
  obtain sys where
    cs: "collectStatus ctx env r = Some (Inr sys, r1)"
    and nodes: "ss_Nodes sys =
             map (\<lambda>st. if sr_err st \<noteq> None then Some (unknownNodeStatus (sr_member st))
                        else sr_NodeStatus st) statuses"
    using collectStatus_members [OF assms(1) rt] by blast
  have "Some (unknownNodeStatus m) \<in> set (ss_Nodes sys)"
    if opn: "done_ch r \<noteq> chan_closed" and mem: "m \<in> set members"
      and qf: "query_fails ctx r m" for m
  proof -
    obtain resp where "resp \<in> set statuses" "sr_member resp = m" "sr_err resp \<noteq> None"
      using fails opn mem qf by blast
    then show ?thesis unfolding nodes by force
  qed
  then show ?thesis
    using rt cs nodes unfolding unknownNodeStatus_def statusFromMember_def by blast
qed

theorem collectStatus_substitutes_unknown_witness:
  "serf_Members (serfClient (snd (Start agent_a))) = Inr [member_a, member_b]
   \<and> \<not> mu (snd (Start agent_a))
   \<and> done_ch (snd (Start agent_a)) \<noteq> chan_closed
   \<and> query_fails ctx_Live (snd (Start agent_a)) member_b
   \<and> (\<exists>sys r1. collectStatus ctx_Live env_cycle (snd (Start agent_a)) = Some (Inr sys, r1)
         \<and> Some \<lparr> ns_Name = ''b'', ns_Status = NodeStatus_Unknown,
                  ns_MemberStatus =
                    Some \<lparr> ms_Name = ''b'', ms_Status = MemberStatus_Alive,
                           ms_Tags = Map.empty, ms_Addr = ''10.0.0.2:7946'' \<rparr>,
                  ns_Probes = [] \<rparr> \<in> set (ss_Nodes sys))"
proof -
  have m: "serf_Members (serfClient (snd (Start agent_a))) = Inr [member_a, member_b]"
    by (simp add: Start_def agent_a_def serf_ab_def)
  have u: "\<not> mu (snd (Start agent_a))"
    by (simp add: Start_def agent_a_def)
  have d: "done_ch (snd (Start agent_a)) \<noteq> chan_closed"
    by (simp add: Start_def agent_a_def)
  have q: "query_fails ctx_Live (snd (Start agent_a)) member_b"
    by (simp add: query_fails_def Start_def agent_a_def member_b_def)
  have b: "m_Name member_b = ''b''" "toMemberStatus (m_Status member_b) = MemberStatus_Alive"
    "m_Tags member_b = Map.empty"
    "m_Addr member_b @ '':'' @ show_nat (unat (m_Port member_b)) = ''10.0.0.2:7946''"
    by (simp_all add: member_b_def toMemberStatus_def MemberAlive_def show_nat.simps)
  show ?thesis
    using collectStatus_substitutes_unknown [OF m u, of ctx_Live env_cycle] m u d q
    unfolding b [symmetric] by auto
qed

text \<open>
  C1, as the claim is worded, fails: in a collection that runs while the agent shuts down,
  the query of the peer \<open>b\<close> fails, its task takes the \<^verbatim>\<open>done\<close> case of its
  \<^verbatim>\<open>select\<close>, and \<^verbatim>\<open>collectStatus\<close> returns without error a system status in
  which \<open>b\<close> is not accounted for.
\<close>

theorem collectStatus_drops_failed_member_counterexample:
  "serf_Members (serfClient agent_closing) = Inr [member_a, member_b]
   \<and> query_fails ctx_Canceled agent_closing member_b
   \<and> map_option fst (collectStatus ctx_Canceled env_drop agent_closing)
       = Some (Inr \<lparr> ss_Status = SystemStatus_Unknown, ss_Timestamp = 0, ss_Nodes = [] \<rparr>)"
  by (simp add: query_fails_def collectStatus_def env_drop_def agent_closing_def agent_a_def
      serf_ab_def run_tasks.simps task_index_def task_pick_def remove_nth_def member_task_def
      getLocalStatus_def getStatusFrom_def collectLocalStatus_def runChecks_def Lock_def
      Unlock_def send_or_done_def member_a_def member_b_def setSystemStatus_def Let_def
      split_beta)

text \<open>
  C2. When serf cannot list the members, \<^verbatim>\<open>collectStatus\<close> returns the error and no
  system status, and the collection started by the loop leaves the agent as it was: the
  cache is not written and holds what it held.
\<close>

theorem collectStatus_members_error:
  assumes "serf_Members (serfClient r) = Inl err"
  shows "collectStatus ctx env r = Some (Inl (Wrap err ''failed to query serf members''), r)
         \<and> collection ctx env r = Some r"
  using assms by (simp add: collectStatus_def collection_def)

theorem collectStatus_members_error_witness:
  "serf_Members (serfClient agent_no_serf) = Inl (Error ''EOF'')
   \<and> collectStatus ctx_Live env_cycle agent_no_serf
       = Some (Inl (Wrap (Error ''EOF'') ''failed to query serf members''), agent_no_serf)
   \<and> collection ctx_Live env_cycle agent_no_serf = Some agent_no_serf
   \<and> cache agent_no_serf = None"
  using collectStatus_members_error [of agent_no_serf "Error ''EOF''" ctx_Live env_cycle]
  by (simp add: agent_no_serf_def agent_a_def)

text \<open>
  C4, as the code has it. A collection for which serf lists the members returns a system
  status with at most one node for each member, and with exactly one node for each member
  when the channel \<^verbatim>\<open>done\<close> is not closed while the member tasks deliver.
\<close>

theorem collectStatus_node_count:
  assumes "serf_Members (serfClient r) = Inr members" and "\<not> mu r"
  shows "\<exists>n. node_count (collectStatus ctx env r) = Some n \<and> n \<le> length members
           \<and> (done_ch r \<noteq> chan_closed \<longrightarrow> n = length members)"
proof -
  obtain statuses r1 where
    rt: "run_tasks ctx members (ce_sched env) ([], r) = Some (statuses, r1)"
    and le: "length statuses \<le> length members"
    and eq: "done_ch r \<noteq> chan_closed \<longrightarrow> length statuses = length members"
    using run_tasks_returns [OF assms(2), of ctx members "ce_sched env" "[]"] by auto
  obtain sys where
    cs: "collectStatus ctx env r = Some (Inr sys, r1)"
    and nodes: "ss_Nodes sys =
             map (\<lambda>st. if sr_err st \<noteq> None then Some (unknownNodeStatus (sr_member st))
                        else sr_NodeStatus st) statuses"
    using collectStatus_members [OF assms(1) rt] by blast
  have "node_count (collectStatus ctx env r) = Some (length statuses)"
    using cs nodes by (simp add: node_count_def)
  then show ?thesis using le eq by simp
qed

theorem collectStatus_node_count_witness:
  "serf_Members (serfClient (snd (Start agent_a))) = Inr [member_a, member_b]
   \<and> \<not> mu (snd (Start agent_a))
   \<and> done_ch (snd (Start agent_a)) \<noteq> chan_closed
   \<and> node_count (collectStatus ctx_Live env_cycle (snd (Start agent_a))) = Some 2"
  using collectStatus_node_count [of "snd (Start agent_a)" "[member_a, member_b]" ctx_Live env_cycle]
  by (simp add: Start_def agent_a_def serf_ab_def)

text \<open>
  C4, as the claim is worded, fails: in a collection that runs while the agent shuts down,
  the tasks of both members take the \<^verbatim>\<open>done\<close> case of their \<^verbatim>\<open>select\<close>, and the
  collection returns a system status without nodes for a cluster of two members, which the
  loop's goroutine writes to the cache.
\<close>

theorem collectStatus_node_count_counterexample:
  "serf_Members (serfClient agent_closing) = Inr [member_a, member_b]
   \<and> node_count (collectStatus ctx_Canceled env_drop agent_closing) = Some 0
   \<and> map_option cache (collection ctx_Canceled env_drop agent_closing)
       = Some (Some \<lparr> ss_Status = SystemStatus_Unknown, ss_Timestamp = 0, ss_Nodes = [] \<rparr>)"
  by (simp add: collection_def UpdateStatus_def collectStatus_def node_count_def env_drop_def agent_closing_def agent_a_def
      serf_ab_def run_tasks.simps task_index_def task_pick_def remove_nth_def member_task_def
      getLocalStatus_def getStatusFrom_def collectLocalStatus_def runChecks_def Lock_def
      Unlock_def send_or_done_def member_a_def member_b_def setSystemStatus_def Let_def
      split_beta)

subsection \<open>The states an agent can come to\<close>

lemma collection_returns:
  assumes "\<not> mu r"
  shows "\<exists>r'. collection ctx env r = Some r' \<and> \<not> mu r' \<and> done_ch r' = done_ch r
           \<and> (localStatus r \<noteq> None \<longrightarrow> localStatus r' \<noteq> None)"
proof (cases "serf_Members (serfClient r)")
  case (Inl err)
  then show ?thesis using assms by (simp add: collection_def collectStatus_def)
next
  case (Inr members)
  obtain statuses r1 where
    rt: "run_tasks ctx members (ce_sched env) ([], r) = Some (statuses, r1)"
    and f: "frame r r1"
    using run_tasks_returns [OF assms, of ctx members "ce_sched env" "[]"] by auto
  obtain sys where cs: "collectStatus ctx env r = Some (Inr sys, r1)"
    using collectStatus_members [OF Inr rt] by blast
  have "\<not> mu r1" "done_ch r1 = done_ch r" "localStatus r \<noteq> None \<longrightarrow> localStatus r1 \<noteq> None"
    using frame_fields [OF f] assms f by (simp_all add: frame_def)
  then show ?thesis
    using cs by (simp add: collection_def UpdateStatus_def split: option.splits)
qed

lemma Close_returns:
  assumes "done_ch r = chan_open"
  shows "Close r = Some (map_option (\<lambda>e. Wrap e []) (serf_Close (serfClient r)),
                         r\<lparr>rpc_stopped := True, done_ch := chan_closed\<rparr>)"
  using assms by (simp add: Close_def Let_def split: option.splits)

lemma Close_only_open:
  "Close r = Some (err, r') \<Longrightarrow> done_ch r = chan_open"
  by (simp add: Close_def Let_def split: if_splits)

lemma LocalStatus_free: "\<not> mu r \<Longrightarrow> LocalStatus r = Some (localStatus r, r)"
  by (simp add: LocalStatus_def recentLocalStatus_def Lock_def Unlock_def)

lemma sound_created: "New config env = Inr r \<Longrightarrow> sound \<lparr>ag = r, loop = loop_idle, cycles = []\<rparr>"
  by (auto simp: New_def sound_def split: sum.splits option.splits)

lemma cancel_not_Live: "cancel c \<noteq> ctx_Live"
  by (simp add: cancel_def)

lemma soundI:
  assumes "\<not> mu (ag s)" and "localStatus (ag s) \<noteq> None"
    and "loop s = loop_idle \<longleftrightarrow> done_ch (ag s) = chan_nil"
    and "\<And>k. loop s = loop_wait k \<Longrightarrow> k < length (cycles s)"
    and "\<And>k. k < length (cycles s) \<Longrightarrow> cy_ctx (cycles s ! k) = ctx_Live \<Longrightarrow>
            loop s = loop_wait k \<and> cy_running (cycles s ! k)"
  shows "sound s"
  unfolding sound_def using assms by blast

lemma sound_mu: "sound s \<Longrightarrow> \<not> mu (ag s)"
  and sound_slot: "sound s \<Longrightarrow> localStatus (ag s) \<noteq> None"
  and sound_idle: "sound s \<Longrightarrow> loop s = loop_idle \<longleftrightarrow> done_ch (ag s) = chan_nil"
  and sound_wait: "sound s \<Longrightarrow> loop s = loop_wait k \<Longrightarrow> k < length (cycles s)"
  and sound_live: "sound s \<Longrightarrow> k < length (cycles s) \<Longrightarrow> cy_ctx (cycles s ! k) = ctx_Live \<Longrightarrow>
            loop s = loop_wait k \<and> cy_running (cycles s ! k)"
  unfolding sound_def by blast+

lemma sound_stop_at_wait:
  assumes "sound s" and "loop s = loop_wait k"
  shows "sound (s\<lparr>loop := loop_exited,
            cycles := (cycles s)[k := (cycles s ! k)\<lparr>cy_ctx := cancel (cy_ctx (cycles s ! k))\<rparr>]\<rparr>)"
    (is "sound ?s'")
proof (rule soundI)
  show "\<not> mu (ag ?s')" using sound_mu [OF assms(1)] by simp
  show "localStatus (ag ?s') \<noteq> None" using sound_slot [OF assms(1)] by simp
  show "loop ?s' = loop_idle \<longleftrightarrow> done_ch (ag ?s') = chan_nil"
    using sound_idle [OF assms(1)] assms(2) by simp
  show "j < length (cycles ?s')" if "loop ?s' = loop_wait j" for j
    using that by simp
  show "loop ?s' = loop_wait j \<and> cy_running (cycles ?s' ! j)"
    if a: "j < length (cycles ?s')" and b: "cy_ctx (cycles ?s' ! j) = ctx_Live" for j
  proof (cases "j = k")
    case True
    then show ?thesis using a b cancel_not_Live by simp
  next
    case False
    then have "cy_ctx (cycles s ! j) = ctx_Live" "j < length (cycles s)" using a b by simp_all
    then have "loop s = loop_wait j" using sound_live [OF assms(1)] by blast
    then show ?thesis using assms(2) False by simp
  qed
qed

lemma sound_start:
  assumes "sound s" and "loop s = loop_idle"
  shows "sound (s\<lparr>ag := snd (Start (ag s)), loop := loop_tick\<rparr>)" (is "sound ?s'")
proof (rule soundI)
  show "\<not> mu (ag ?s')" using sound_mu [OF assms(1)] by (simp add: Start_def)
  show "localStatus (ag ?s') \<noteq> None" using sound_slot [OF assms(1)] by (simp add: Start_def)
  show "loop ?s' = loop_idle \<longleftrightarrow> done_ch (ag ?s') = chan_nil" by (simp add: Start_def)
  show "j < length (cycles ?s')" if "loop ?s' = loop_wait j" for j
    using that by simp
  show "loop ?s' = loop_wait j \<and> cy_running (cycles ?s' ! j)"
    if a: "j < length (cycles ?s')" and b: "cy_ctx (cycles ?s' ! j) = ctx_Live" for j
  proof -
    have "loop s = loop_wait j" using sound_live [OF assms(1), of j] a b by simp
    then show ?thesis using assms(2) by simp
  qed
qed

lemma sound_spawn:
  assumes "sound s" and "loop s = loop_fired"
  shows "sound (s\<lparr>loop := loop_wait (length (cycles s)),
            cycles := cycles s @ [\<lparr>cy_ctx = ctx_Live, cy_running = True\<rparr>]\<rparr>)" (is "sound ?s'")
proof (rule soundI)
  show "\<not> mu (ag ?s')" using sound_mu [OF assms(1)] by simp
  show "localStatus (ag ?s') \<noteq> None" using sound_slot [OF assms(1)] by simp
  show "loop ?s' = loop_idle \<longleftrightarrow> done_ch (ag ?s') = chan_nil"
    using sound_idle [OF assms(1)] assms(2) by simp
  show "j < length (cycles ?s')" if "loop ?s' = loop_wait j" for j
    using that by simp
  show "loop ?s' = loop_wait j \<and> cy_running (cycles ?s' ! j)"
    if a: "j < length (cycles ?s')" and b: "cy_ctx (cycles ?s' ! j) = ctx_Live" for j
  proof (cases "j < length (cycles s)")
    case True
    then have "cy_ctx (cycles s ! j) = ctx_Live" using b by (simp add: nth_append)
    then have "loop s = loop_wait j" using sound_live [OF assms(1) True] by blast
    then show ?thesis using assms(2) by simp
  next
    case False
    then have "j = length (cycles s)" using a by simp
    then show ?thesis by simp
  qed
qed

lemma sound_leave:
  assumes "sound s" and "\<And>j. j < length (cycles s) \<Longrightarrow> cy_ctx (cycles s ! j) \<noteq> ctx_Live"
    and "pc = loop_tick \<or> pc = loop_exited \<or> pc = loop_fired" and "loop s \<noteq> loop_idle"
  shows "sound (s\<lparr>loop := pc\<rparr>)" (is "sound ?s'")
proof (rule soundI)
  show "\<not> mu (ag ?s')" using sound_mu [OF assms(1)] by simp
  show "localStatus (ag ?s') \<noteq> None" using sound_slot [OF assms(1)] by simp
  show "loop ?s' = loop_idle \<longleftrightarrow> done_ch (ag ?s') = chan_nil"
    using sound_idle [OF assms(1)] assms(3,4) by auto
  show "j < length (cycles ?s')" if "loop ?s' = loop_wait j" for j
    using that assms(3) by auto
  show "loop ?s' = loop_wait j \<and> cy_running (cycles ?s' ! j)"
    if a: "j < length (cycles ?s')" and b: "cy_ctx (cycles ?s' ! j) = ctx_Live" for j
    using assms(2) [of j] a b by simp
qed

lemma sound_no_live_at_tick:
  assumes "sound s" and "loop s = loop_tick" and "j < length (cycles s)"
  shows "cy_ctx (cycles s ! j) \<noteq> ctx_Live"
  using sound_live [OF assms(1,3)] assms(2) by auto

lemma sound_no_live_at_wait:
  assumes "sound s" and "loop s = loop_wait k" and "cy_ctx (cycles s ! k) \<noteq> ctx_Live"
    and "j < length (cycles s)"
  shows "cy_ctx (cycles s ! j) \<noteq> ctx_Live"
  using sound_live [OF assms(1,4)] assms(2,3) by auto

lemma sound_end_ctx:
  assumes "sound s" and "k < length (cycles s)" and "cy_ctx c \<noteq> ctx_Live"
  shows "sound (s\<lparr>cycles := (cycles s)[k := c]\<rparr>)" (is "sound ?s'")
proof (rule soundI)
  show "\<not> mu (ag ?s')" using sound_mu [OF assms(1)] by simp
  show "localStatus (ag ?s') \<noteq> None" using sound_slot [OF assms(1)] by simp
  show "loop ?s' = loop_idle \<longleftrightarrow> done_ch (ag ?s') = chan_nil"
    using sound_idle [OF assms(1)] by simp
  show "j < length (cycles ?s')" if "loop ?s' = loop_wait j" for j
    using that sound_wait [OF assms(1), of j] by simp
  show "loop ?s' = loop_wait j \<and> cy_running (cycles ?s' ! j)"
    if a: "j < length (cycles ?s')" and b: "cy_ctx (cycles ?s' ! j) = ctx_Live" for j
  proof (cases "j = k")
    case True
    then show ?thesis using a b assms(3) by simp
  next
    case False
    then show ?thesis using sound_live [OF assms(1), of j] a b by simp
  qed
qed

lemma sound_ag:
  assumes "sound s" and "\<not> mu r" and "localStatus r \<noteq> None"
    and "done_ch r = chan_nil \<longleftrightarrow> done_ch (ag s) = chan_nil"
  shows "sound (s\<lparr>ag := r\<rparr>)" (is "sound ?s'")
proof (rule soundI)
  show "\<not> mu (ag ?s')" using assms(2) by simp
  show "localStatus (ag ?s') \<noteq> None" using assms(3) by simp
  show "loop ?s' = loop_idle \<longleftrightarrow> done_ch (ag ?s') = chan_nil"
    using sound_idle [OF assms(1)] assms(4) by simp
  show "j < length (cycles ?s')" if "loop ?s' = loop_wait j" for j
    using that sound_wait [OF assms(1), of j] by simp
  show "loop ?s' = loop_wait j \<and> cy_running (cycles ?s' ! j)"
    if a: "j < length (cycles ?s')" and b: "cy_ctx (cycles ?s' ! j) = ctx_Live" for j
    using sound_live [OF assms(1), of j] a b by simp
qed

lemma sound_step:
  assumes "sound s" and "step s s'"
  shows "sound s'"
  using assms(2)
proof cases
  case start
  then show ?thesis using sound_start [OF assms(1)] by simp
next
  case timer
  have "sound (s\<lparr>loop := loop_fired\<rparr>)"
    by (rule sound_leave [OF assms(1)])
       (use sound_no_live_at_tick [OF assms(1)] timer in auto)
  then show ?thesis using timer by simp
next
  case spawn
  then show ?thesis using sound_spawn [OF assms(1)] by simp
next
  case stop_at_tick
  have "sound (s\<lparr>loop := loop_exited\<rparr>)"
    by (rule sound_leave [OF assms(1)])
       (use sound_no_live_at_tick [OF assms(1)] stop_at_tick in auto)
  then show ?thesis using stop_at_tick by simp
next
  case (ctx_done k)
  have "sound (s\<lparr>loop := loop_tick\<rparr>)"
    by (rule sound_leave [OF assms(1)])
       (use sound_no_live_at_wait [OF assms(1)] ctx_done in auto)
  then show ?thesis using ctx_done by simp
next
  case (stop_at_wait k)
  then show ?thesis using sound_stop_at_wait [OF assms(1)] by simp
next
  case (deadline k)
  have "sound (s\<lparr>cycles := (cycles s)[k := (cycles s ! k)\<lparr>cy_ctx := ctx_DeadlineExceeded\<rparr>]\<rparr>)"
    by (rule sound_end_ctx [OF assms(1)]) (use deadline in auto)
  then show ?thesis using deadline by simp
next
  case (finish k env r)
  have mu: "\<not> mu (ag s)" by (rule sound_mu [OF assms(1)])
  obtain r' where "collection (cy_ctx (cycles s ! k)) env (ag s) = Some r'" "\<not> mu r'"
    "done_ch r' = done_ch (ag s)" "localStatus (ag s) \<noteq> None \<longrightarrow> localStatus r' \<noteq> None"
    using collection_returns [OF mu] by blast
  then have r: "\<not> mu r" "done_ch r = done_ch (ag s)" "localStatus r \<noteq> None"
    using finish(4) sound_slot [OF assms(1)] by simp_all
  have 1: "sound (s\<lparr>ag := r\<rparr>)"
    by (rule sound_ag [OF assms(1)]) (use r in auto)
  have "sound (s\<lparr>ag := r\<rparr>\<lparr>cycles := (cycles (s\<lparr>ag := r\<rparr>))[k := \<lparr>cy_ctx = cancel (cy_ctx (cycles s ! k)),
                                          cy_running = False\<rparr>]\<rparr>)"
    by (rule sound_end_ctx [OF 1]) (use finish cancel_not_Live in auto)
  then show ?thesis using finish by simp
next
  case (close err r)
  have o: "done_ch (ag s) = chan_open" using close(2) by (rule Close_only_open)
  have r: "r = (ag s)\<lparr>rpc_stopped := True, done_ch := chan_closed\<rparr>"
    using close(2) unfolding Close_returns [OF o] by simp
  have "sound (s\<lparr>ag := r\<rparr>)"
    by (rule sound_ag [OF assms(1)])
       (use r o sound_mu [OF assms(1)] sound_slot [OF assms(1)] in auto)
  then show ?thesis using close by simp
next
  case (local_status status r)
  have mu: "\<not> mu (ag s)" by (rule sound_mu [OF assms(1)])
  have "r = ag s" using local_status(2) unfolding LocalStatus_free [OF mu] by simp
  then show ?thesis using local_status assms(1) by simp
next
  case (add_checker checker)
  have "sound (s\<lparr>ag := AddChecker checker (ag s)\<rparr>)"
    by (rule sound_ag [OF assms(1)])
       (use sound_mu [OF assms(1)] sound_slot [OF assms(1)] in \<open>auto simp: AddChecker_def\<close>)
  then show ?thesis using add_checker by simp
next
  case outside
  have "sound (s\<lparr>ag := (ag s)\<lparr>Checkers := x, serfClient := y, dialRPC := z\<rparr>\<rparr>)" for x y z
    by (rule sound_ag [OF assms(1)])
       (use sound_mu [OF assms(1)] sound_slot [OF assms(1)] in auto)
  then show ?thesis using outside by simp
qed

lemma reach_sound: "reach s \<Longrightarrow> sound s"
  by (induction rule: reach.induct) (auto intro: sound_created sound_step)

lemma reach_created: "reach sys_created"
  unfolding sys_created_def by (rule reach.created) (rule New_agent_a)

lemma reach_started: "reach sys_started"
proof -
  have "step sys_created sys_started"
    using step.start [of sys_created]
    by (simp add: sys_created_def sys_started_def agent_started_def Start_def)
  then show ?thesis using reach_created reach.moved by blast
qed

lemma reach_fired: "reach sys_fired"
proof -
  have "step sys_started sys_fired"
    using step.timer [of sys_started]
    by (simp add: sys_started_def sys_fired_def agent_started_def agent_a_def)
  then show ?thesis using reach_started reach.moved by blast
qed

lemma reach_waiting: "reach sys_waiting"
proof -
  have "step sys_fired sys_waiting"
    using step.spawn [of sys_fired]
    by (simp add: sys_fired_def sys_waiting_def)
  then show ?thesis using reach_fired reach.moved by blast
qed

lemma reach_expired: "reach sys_expired"
proof -
  have "step sys_waiting sys_expired"
    using step.deadline [of 0 sys_waiting]
    by (simp add: sys_waiting_def sys_expired_def)
  then show ?thesis using reach_waiting reach.moved by blast
qed

lemma reach_next: "reach sys_next"
proof -
  have "step sys_expired sys_next"
    using step.ctx_done [of sys_expired 0]
    by (simp add: sys_expired_def sys_next_def)
  then show ?thesis using reach_expired reach.moved by blast
qed

lemma reach_refired: "reach sys_refired"
proof -
  have "step sys_next sys_refired"
    using step.timer [of sys_next]
    by (simp add: sys_next_def sys_refired_def agent_started_def agent_a_def)
  then show ?thesis using reach_next reach.moved by blast
qed

lemma reach_overrun: "reach sys_overrun"
proof -
  have "step sys_refired sys_overrun"
    using step.spawn [of sys_refired]
    by (simp add: sys_refired_def sys_overrun_def)
  then show ?thesis using reach_refired reach.moved by blast
qed


text \<open>
  C10. Right after \<^verbatim>\<open>New\<close>, \<^verbatim>\<open>LocalStatus\<close> returns the placeholder: the name of
  the configuration, the status Unknown, a member status that bears only that name, and no
  probes. In every state the agent can come to, before the first collection too,
  \<^verbatim>\<open>LocalStatus\<close> returns, and what it returns is not nil.
\<close>

theorem LocalStatus_never_nil:
  "(New config env = Inr r \<longrightarrow>
      LocalStatus r =
        Some (Some \<lparr> ns_Name = cfg_Name config, ns_Status = NodeStatus_Unknown,
                      ns_MemberStatus =
                        Some \<lparr> ms_Name = cfg_Name config, ms_Status = MemberStatus_None,
                               ms_Tags = Map.empty, ms_Addr = [] \<rparr>,
                      ns_Probes = [] \<rparr>, r))
   \<and> (reach s \<longrightarrow> (\<exists>status. LocalStatus (ag s) = Some (Some status, ag s)))"
proof (intro conjI impI)
  assume n: "New config env = Inr r"
  then have "\<not> mu r" "localStatus r = Some (emptyNodeStatus (cfg_Name config))"
    by (auto simp: New_def split: sum.splits option.splits)
  then show "LocalStatus r =
        Some (Some \<lparr> ns_Name = cfg_Name config, ns_Status = NodeStatus_Unknown,
                      ns_MemberStatus =
                        Some \<lparr> ms_Name = cfg_Name config, ms_Status = MemberStatus_None,
                               ms_Tags = Map.empty, ms_Addr = [] \<rparr>,
                      ns_Probes = [] \<rparr>, r)"
    using LocalStatus_free [of r] by (simp add: emptyNodeStatus_def)
next
  assume "reach s"
  then have "sound s" by (rule reach_sound)
  then show "\<exists>status. LocalStatus (ag s) = Some (Some status, ag s)"
    using LocalStatus_free [of "ag s"] sound_mu [of s] sound_slot [of s] by auto
qed

theorem LocalStatus_never_nil_witness:
  "New config_a env_a = Inr agent_a
   \<and> LocalStatus agent_a =
        Some (Some \<lparr> ns_Name = ''a'', ns_Status = NodeStatus_Unknown,
                      ns_MemberStatus =
                        Some \<lparr> ms_Name = ''a'', ms_Status = MemberStatus_None,
                               ms_Tags = Map.empty, ms_Addr = [] \<rparr>,
                      ns_Probes = [] \<rparr>, agent_a)
   \<and> reach sys_overrun
   \<and> (\<exists>status. LocalStatus (ag sys_overrun) = Some (Some status, ag sys_overrun))"
  using LocalStatus_never_nil [of config_a env_a agent_a sys_overrun] New_agent_a reach_overrun
  by (simp add: config_a_def)

subsection \<open>Collections in flight\<close>

text \<open>
  C5, as the code has it. At every instant at most one collection has a context that is
  not done, and it is the collection the loop waits for; the loop starts a collection only
  when the context of every earlier collection is done. The deadline ends the context of a
  collection, not its goroutine.
\<close>

theorem one_live_collection:
  assumes "reach s"
  shows "(\<forall>i<length (cycles s). \<forall>j<length (cycles s).
            cy_ctx (cycles s ! i) = ctx_Live \<and> cy_ctx (cycles s ! j) = ctx_Live \<longrightarrow> i = j)
         \<and> (\<forall>k<length (cycles s). cy_ctx (cycles s ! k) = ctx_Live \<longrightarrow>
               loop s = loop_wait k \<and> cy_running (cycles s ! k))
         \<and> (loop s = loop_tick \<or> loop s = loop_exited \<longrightarrow>
               (\<forall>k<length (cycles s). cy_ctx (cycles s ! k) \<noteq> ctx_Live))"
proof -
  have s: "sound s" using assms by (rule reach_sound)
  have live: "loop s = loop_wait k \<and> cy_running (cycles s ! k)"
    if "k < length (cycles s)" "cy_ctx (cycles s ! k) = ctx_Live" for k
    using sound_live [OF s that] .
  have "i = j" if "i < length (cycles s)" "j < length (cycles s)"
    "cy_ctx (cycles s ! i) = ctx_Live" "cy_ctx (cycles s ! j) = ctx_Live" for i j
    using live [of i] live [of j] that by simp
  moreover have "cy_ctx (cycles s ! k) \<noteq> ctx_Live"
    if "loop s = loop_tick \<or> loop s = loop_exited" "k < length (cycles s)" for k
    using live [of k] that by auto
  ultimately show ?thesis using live by blast
qed

theorem one_live_collection_witness:
  "reach sys_overrun
   \<and> cy_ctx (cycles sys_overrun ! 1) = ctx_Live
   \<and> loop sys_overrun = loop_wait 1
   \<and> cy_running (cycles sys_overrun ! 1)
   \<and> cy_ctx (cycles sys_overrun ! 0) = ctx_DeadlineExceeded"
proof -
  have l: "cy_ctx (cycles sys_overrun ! 1) = ctx_Live" "(1::nat) < length (cycles sys_overrun)"
    "cy_ctx (cycles sys_overrun ! 0) = ctx_DeadlineExceeded"
    by (simp_all add: sys_overrun_def)
  have "loop sys_overrun = loop_wait 1 \<and> cy_running (cycles sys_overrun ! 1)"
    using one_live_collection [OF reach_overrun] l by blast
  then show ?thesis using reach_overrun l by simp
qed

text \<open>
  C5, as the claim is worded, fails: the first collection passes its deadline, the loop goes
  round, the next tick starts the second collection, and the goroutines of both are running.
\<close>

theorem two_collections_in_flight_counterexample:
  "reach sys_overrun \<and> in_flight sys_overrun = 2"
  using reach_overrun by (simp add: in_flight_def sys_overrun_def)

subsection \<open>Shutdown\<close>


lemma loop_rank_fired: "loop_rank pc = 3 \<longleftrightarrow> pc = loop_fired"
  by (cases pc) simp_all

lemma loop_rank_exited: "loop_rank pc = 0 \<longleftrightarrow> pc = loop_exited"
  by (cases pc) simp_all






subsection \<open>Histories of the slot\<close>

lemma collectLocalStatus_phases:
  "collectLocalStatus ctx local r =
     (case collectLocalStatus_checks ctx local r of
        (Inl err, r1) \<Rightarrow> Some (Inl err, r1)
      | (Inr status, r1) \<Rightarrow> collectLocalStatus_store status r1)"
  by (simp add: collectLocalStatus_def collectLocalStatus_checks_def
      collectLocalStatus_store_def split_beta Let_def)

lemma checks_returns:
  "\<exists>status lg. collectLocalStatus_checks ctx local r = (Inr status, r\<lparr>logged := lg\<rparr>)"
  by (auto simp: collectLocalStatus_checks_def runChecks_def split_beta Let_def)

lemma store_returns:
  assumes "\<not> mu r"
  shows "collectLocalStatus_store status r = Some (Inr status, r\<lparr>localStatus := Some status\<rparr>)"
  using assms
  by (cases r) (simp add: collectLocalStatus_store_def Lock_def Unlock_def)

lemma history_reads:
  assumes "\<not> mu (h_agent h)"
  shows "\<exists>reads collected. history calls h = Some (reads, collected)
           \<and> set reads \<subseteq>
               insert (h_slot h, localStatus (h_agent h))
                 ((\<lambda>(k, status). (k, Some status)) ` (set (h_pending h) \<union> set collected))"
  using assms
proof (induction calls arbitrary: h)
  case Nil
  show ?case by simp
next
  case (Cons c calls)
  show ?case
  proof (cases c)
    case (call_AddChecker x)
    let ?h = "h\<lparr>h_agent := AddChecker x (h_agent h)\<rparr>"
    have "\<not> mu (h_agent ?h)" using Cons.prems by (simp add: AddChecker_def)
    from Cons.IH [OF this] show ?thesis
      using call_AddChecker by (simp add: AddChecker_def)
  next
    case (call_checks ctx local)
    obtain status lg where
      c: "collectLocalStatus_checks ctx local (h_agent h) = (Inr status, (h_agent h)\<lparr>logged := lg\<rparr>)"
      using checks_returns by blast
    let ?h = "h\<lparr>h_agent := (h_agent h)\<lparr>logged := lg\<rparr>,
                h_pending := h_pending h @ [(Suc (h_count h), status)],
                h_count := Suc (h_count h)\<rparr>"
    have "\<not> mu (h_agent ?h)" using Cons.prems by simp
    from Cons.IH [OF this] obtain reads collected where
      r: "history calls ?h = Some (reads, collected)"
      and s: "set reads \<subseteq>
               insert (h_slot ?h, localStatus (h_agent ?h))
                 ((\<lambda>(k, status). (k, Some status)) ` (set (h_pending ?h) \<union> set collected))"
      by blast
    have "history (c # calls) h = Some (reads, (Suc (h_count h), status) # collected)"
      using call_checks c r by simp
    moreover have "set reads \<subseteq>
               insert (h_slot h, localStatus (h_agent h))
                 ((\<lambda>(k, status). (k, Some status))
                    ` (set (h_pending h) \<union> set ((Suc (h_count h), status) # collected)))"
      using s by auto
    ultimately show ?thesis by blast
  next
    case (call_store j)
    show ?thesis
    proof (cases "h_pending h = []")
      case True
      then show ?thesis using call_store Cons.IH [OF Cons.prems] by simp
    next
      case False
      let ?i = "j mod length (h_pending h)"
      let ?p = "h_pending h ! ?i"
      have i: "?i < length (h_pending h)" using False by simp
      have st: "collectLocalStatus_store (snd ?p) (h_agent h)
                  = Some (Inr (snd ?p), (h_agent h)\<lparr>localStatus := Some (snd ?p)\<rparr>)"
        using Cons.prems by (rule store_returns)
      let ?h = "h\<lparr>h_agent := (h_agent h)\<lparr>localStatus := Some (snd ?p)\<rparr>,
                  h_pending := remove_nth ?i (h_pending h),
                  h_slot := fst ?p\<rparr>"
      have "\<not> mu (h_agent ?h)" using Cons.prems by simp
      from Cons.IH [OF this] obtain reads collected where
        r: "history calls ?h = Some (reads, collected)"
        and s: "set reads \<subseteq>
               insert (h_slot ?h, localStatus (h_agent ?h))
                 ((\<lambda>(k, status). (k, Some status)) ` (set (h_pending ?h) \<union> set collected))"
        by blast
      have 1: "history (c # calls) h = Some (reads, collected)"
        using call_store False st r by (simp add: Let_def)
      have p: "?p \<in> set (h_pending h)" using i by simp
      have sub: "set (remove_nth ?i (h_pending h)) \<subseteq> set (h_pending h)"
        unfolding remove_nth_def
        using set_take_subset [of ?i "h_pending h"] set_drop_subset [of "Suc ?i" "h_pending h"]
        by auto
      have "x \<in> insert (h_slot h, localStatus (h_agent h))
                 ((\<lambda>(k, status). (k, Some status)) ` (set (h_pending h) \<union> set collected))"
        if x: "x \<in> set reads" for x
      proof -
        from s x have "x = (fst ?p, Some (snd ?p))
            \<or> x \<in> (\<lambda>(k, status). (k, Some status))
                     ` (set (remove_nth ?i (h_pending h)) \<union> set collected)"
          by auto
        then show ?thesis
        proof
          assume "x = (fst ?p, Some (snd ?p))"
          then have "x = (\<lambda>(k, status). (k, Some status)) ?p" by (simp add: split_beta)
          then have "x \<in> (\<lambda>(k, status). (k, Some status)) ` set (h_pending h)"
            using p by (rule image_eqI)
          then show ?thesis by auto
        next
          assume "x \<in> (\<lambda>(k, status). (k, Some status))
                     ` (set (remove_nth ?i (h_pending h)) \<union> set collected)"
          then show ?thesis using sub by auto
        qed
      qed
      then have "set reads \<subseteq>
               insert (h_slot h, localStatus (h_agent h))
                 ((\<lambda>(k, status). (k, Some status)) ` (set (h_pending h) \<union> set collected))"
        by blast
      then show ?thesis using 1 by blast
    qed
  next
    case call_LocalStatus
    have l: "LocalStatus (h_agent h) = Some (localStatus (h_agent h), h_agent h)"
      using Cons.prems by (rule LocalStatus_free)
    have "h\<lparr>h_agent := h_agent h\<rparr> = h" by simp
    with Cons.IH [OF Cons.prems] obtain reads collected where
      r: "history calls (h\<lparr>h_agent := h_agent h\<rparr>) = Some (reads, collected)"
      and s: "set reads \<subseteq>
               insert (h_slot h, localStatus (h_agent h))
                 ((\<lambda>(k, status). (k, Some status)) ` (set (h_pending h) \<union> set collected))"
      by auto
    have "history (c # calls) h
            = Some ((h_slot h, localStatus (h_agent h)) # reads, collected)"
      using call_LocalStatus l r by simp
    then show ?thesis using s by auto
  qed
qed

lemma history_serial:
  assumes "history calls h = Some (reads, collected)"
    and "\<not> mu (h_agent h)"
    and "serial calls (length (h_pending h))"
    and "length (h_pending h) \<le> 1"
    and "\<forall>p\<in>set (h_pending h). h_slot h \<le> fst p"
    and "\<forall>p\<in>set (h_pending h). fst p \<le> h_count h"
    and "h_slot h \<le> h_count h"
  shows "sorted (map fst reads) \<and> (\<forall>x\<in>set reads. h_slot h \<le> fst x)"
  using assms
proof (induction calls arbitrary: h reads collected)
  case Nil
  then show ?case by simp
next
  case (Cons c calls)
  show ?case
  proof (cases c)
    case (call_AddChecker x)
    let ?h = "h\<lparr>h_agent := AddChecker x (h_agent h)\<rparr>"
    have "history calls ?h = Some (reads, collected)"
      using Cons.prems(1) call_AddChecker by simp
    from Cons.IH [OF this] show ?thesis
      using Cons.prems call_AddChecker by (simp add: AddChecker_def)
  next
    case (call_checks ctx local)
    obtain status lg where
      c: "collectLocalStatus_checks ctx local (h_agent h) = (Inr status, (h_agent h)\<lparr>logged := lg\<rparr>)"
      using checks_returns by blast
    let ?h = "h\<lparr>h_agent := (h_agent h)\<lparr>logged := lg\<rparr>,
                h_pending := h_pending h @ [(Suc (h_count h), status)],
                h_count := Suc (h_count h)\<rparr>"
    have e: "h_pending h = []" using Cons.prems(3) call_checks by simp
    obtain collected' where
      r: "history calls ?h = Some (reads, collected')"
      using Cons.prems(1) call_checks c by (auto split: option.splits)
    have "sorted (map fst reads) \<and> (\<forall>x\<in>set reads. h_slot ?h \<le> fst x)"
      by (rule Cons.IH [OF r]) (use Cons.prems call_checks e in auto)
    then show ?thesis by simp
  next
    case (call_store j)
    show ?thesis
    proof (cases "h_pending h = []")
      case True
      then have "history calls h = Some (reads, collected)"
        using Cons.prems(1) call_store by simp
      from Cons.IH [OF this] show ?thesis
        using Cons.prems call_store True by simp
    next
      case False
      then obtain p where one: "h_pending h = [p]"
        using Cons.prems(4) by (cases "h_pending h") auto
      have st: "collectLocalStatus_store (snd p) (h_agent h)
                  = Some (Inr (snd p), (h_agent h)\<lparr>localStatus := Some (snd p)\<rparr>)"
        using Cons.prems(2) by (rule store_returns)
      let ?h = "h\<lparr>h_agent := (h_agent h)\<lparr>localStatus := Some (snd p)\<rparr>,
                  h_pending := [],
                  h_slot := fst p\<rparr>"
      have r: "history calls ?h = Some (reads, collected)"
        using Cons.prems(1) call_store one st by (simp add: remove_nth_def)
      have "sorted (map fst reads) \<and> (\<forall>x\<in>set reads. h_slot ?h \<le> fst x)"
        by (rule Cons.IH [OF r]) (use Cons.prems call_store one in auto)
      moreover have "h_slot h \<le> fst p" using Cons.prems(5) one by simp
      ultimately show ?thesis by auto
    qed
  next
    case call_LocalStatus
    have l: "LocalStatus (h_agent h) = Some (localStatus (h_agent h), h_agent h)"
      using Cons.prems(2) by (rule LocalStatus_free)
    have hh: "h\<lparr>h_agent := h_agent h\<rparr> = h" by simp
    obtain reads' where
      r: "history calls h = Some (reads', collected)"
      and rd: "reads = (h_slot h, localStatus (h_agent h)) # reads'"
      using Cons.prems(1) call_LocalStatus l hh by (auto split: option.splits)
    have "sorted (map fst reads') \<and> (\<forall>x\<in>set reads'. h_slot h \<le> fst x)"
      by (rule Cons.IH [OF r]) (use Cons.prems call_LocalStatus in auto)
    then show ?thesis using rd by auto
  qed
qed

lemma upt_first: "[a ..< a + Suc n] = a # [Suc a ..< Suc a + n]"
  by (subst upt_conv_Cons) simp_all

lemma history_numbers:
  assumes "history calls h = Some (reads, collected)"
  shows "map fst collected = [Suc (h_count h) ..< Suc (h_count h) + length collected]"
  using assms
proof (induction calls arbitrary: h reads collected)
  case Nil
  then show ?case by simp
next
  case (Cons c calls)
  show ?case
  proof (cases c)
    case (call_AddChecker x)
    then have "history calls (h\<lparr>h_agent := AddChecker x (h_agent h)\<rparr>) = Some (reads, collected)"
      using Cons.prems by simp
    from Cons.IH [OF this] show ?thesis by simp
  next
    case (call_checks ctx local)
    obtain status lg where
      c: "collectLocalStatus_checks ctx local (h_agent h) = (Inr status, (h_agent h)\<lparr>logged := lg\<rparr>)"
      using checks_returns by blast
    let ?h = "h\<lparr>h_agent := (h_agent h)\<lparr>logged := lg\<rparr>,
                h_pending := h_pending h @ [(Suc (h_count h), status)],
                h_count := Suc (h_count h)\<rparr>"
    obtain collected' where
      r: "history calls ?h = Some (reads, collected')"
      and e: "collected = (Suc (h_count h), status) # collected'"
      using Cons.prems call_checks c by (auto split: option.splits)
    have ih: "map fst collected' = [Suc (Suc (h_count h)) ..< Suc (Suc (h_count h)) + length collected']"
      using Cons.IH [OF r] by simp
    have len: "length collected = Suc (length collected')" by (simp add: e)
    have "map fst collected = Suc (h_count h) # map fst collected'" by (simp add: e)
    also have "\<dots> = Suc (h_count h) # [Suc (Suc (h_count h)) ..< Suc (Suc (h_count h)) + length collected']"
      by (simp only: ih)
    also have "\<dots> = [Suc (h_count h) ..< Suc (h_count h) + Suc (length collected')]"
      by (rule upt_first [symmetric])
    finally show ?thesis unfolding len .
  next
    case (call_store j)
    show ?thesis
    proof (cases "h_pending h = []")
      case True
      then have "history calls h = Some (reads, collected)"
        using Cons.prems call_store by simp
      from Cons.IH [OF this] show ?thesis .
    next
      case False
      then obtain res r1 where
        "history calls (h\<lparr>h_agent := r1,
                               h_pending := remove_nth (j mod length (h_pending h)) (h_pending h),
                               h_slot := fst (h_pending h ! (j mod length (h_pending h)))\<rparr>)
           = Some (reads, collected)"
        using Cons.prems call_store by (auto simp: Let_def split: option.splits)
      from Cons.IH [OF this] show ?thesis by simp
    qed
  next
    case call_LocalStatus
    then obtain r1 reads' where
      "history calls (h\<lparr>h_agent := r1\<rparr>) = Some (reads', collected)"
      using Cons.prems by (auto split: option.splits)
    from Cons.IH [OF this] show ?thesis by simp
  qed
qed

text \<open>
  C7, as the code has it. Every \<^verbatim>\<open>LocalStatus\<close> returns, and what it returns is the
  placeholder or the status that one of the local collections computed; the collections are
  numbered in the order in which they ran their checks. In a history in which the local
  collections do not overlap (each stores its status before the next runs its checks), the
  snapshots served never go backwards: the number of the collection whose snapshot is
  served is non-decreasing from call to call.
\<close>

theorem LocalStatus_monotone:
  assumes "\<not> mu r"
  shows "\<exists>reads collected.
           history calls (hist_start r) = Some (reads, collected)
           \<and> map fst collected = [1 ..< Suc (length collected)]
           \<and> set reads \<subseteq>
               insert (0, localStatus r) ((\<lambda>(k, status). (k, Some status)) ` set collected)
           \<and> (serial calls 0 \<longrightarrow> sorted (map fst reads))"
proof -
  have m: "\<not> mu (h_agent (hist_start r))" using assms by (simp add: hist_start_def)
  obtain reads collected where
    h: "history calls (hist_start r) = Some (reads, collected)"
    and s: "set reads \<subseteq>
               insert (h_slot (hist_start r), localStatus (h_agent (hist_start r)))
                 ((\<lambda>(k, status). (k, Some status))
                    ` (set (h_pending (hist_start r)) \<union> set collected))"
    using history_reads [OF m] by blast
  have "sorted (map fst reads)" if "serial calls 0"
    using history_serial [OF h m] that by (simp add: hist_start_def)
  moreover have "map fst collected = [1 ..< Suc (length collected)]"
    using history_numbers [OF h] by (simp add: hist_start_def)
  ultimately show ?thesis using h s by (auto simp: hist_start_def)
qed

theorem LocalStatus_monotone_witness:
  "\<not> mu agent_a \<and> serial calls_serial 0
   \<and> map_option fst (history calls_serial (hist_start agent_a))
       = Some [(0, Some (emptyNodeStatus ''a'')), (1, Some status_first),
               (2, Some status_second)]
   \<and> (\<exists>reads collected.
         history calls_serial (hist_start agent_a) = Some (reads, collected)
         \<and> sorted (map fst reads))"
proof -
  have u: "\<not> mu agent_a" by (simp add: agent_a_def)
  have s: "serial calls_serial 0" by (simp add: calls_serial_def)
  have "map_option fst (history calls_serial (hist_start agent_a))
       = Some [(0, Some (emptyNodeStatus ''a'')), (1, Some status_first),
               (2, Some status_second)]"
    by (simp add: calls_serial_def hist_start_def agent_a_def LocalStatus_def
        recentLocalStatus_def Lock_def Unlock_def collectLocalStatus_checks_def
        collectLocalStatus_store_def runChecks_def AddChecker_def Let_def split_beta
        remove_nth_def status_first_def status_second_def statusFromMember_def
        toMemberStatus_def MemberAlive_def member_a_def show_nat.simps checker_ok_def
        Add_def GetProbes_def Probes_Status_def probe_ok_def)
  then show ?thesis using LocalStatus_monotone [OF u, of calls_serial] u s by auto
qed

text \<open>
  C7, as the claim is worded, fails: the first collection runs its checks, the second runs
  its checks and stores, and \<^verbatim>\<open>LocalStatus\<close> serves the snapshot of the second; then
  the first stores, and \<^verbatim>\<open>LocalStatus\<close> serves the snapshot of the first, which is
  the older one.
\<close>

theorem LocalStatus_goes_back_counterexample:
  "map_option fst (history calls_overlap (hist_start agent_a))
     = Some [(2, Some status_second), (1, Some status_first)]"
  by (simp add: calls_overlap_def hist_start_def agent_a_def LocalStatus_def
      recentLocalStatus_def Lock_def Unlock_def collectLocalStatus_checks_def
      collectLocalStatus_store_def runChecks_def AddChecker_def Let_def split_beta
      remove_nth_def status_first_def status_second_def statusFromMember_def
      toMemberStatus_def MemberAlive_def member_a_def show_nat.simps checker_ok_def
      Add_def GetProbes_def Probes_Status_def probe_ok_def)

end
